theory Spec2Isabelle
  imports Main "HOL-Library.Sublist"
begin

section \<open>The debug-logger migration script \<open>update_debug.py\<close>\<close>

text \<open>
  The script rewrites JavaScript source files: it adds an import of \<open>DebugLogger\<close>,
  adds a logger instance after the \<open>super();\<close> call of a constructor, and turns the
  \<open>console.*(\<close> calls into \<open>this.debug.*(\<close> calls.

  A document is a Python \<open>str\<close>, modelled as a \<open>string\<close>: one \<open>char\<close> per code point,
  which covers the code points below 256. The test \<open>sub in content\<close> is \<^const>\<open>sublist\<close>,
  \<open>startswith\<close> is \<^const>\<open>prefix\<close>.
\<close>

subsection \<open>String operations of Python used by the script\<close>

text \<open>\<open>content.replace(old, new, 1)\<close>: only the first occurrence of \<open>old\<close> is replaced.\<close>

fun replace_first :: "string \<Rightarrow> string \<Rightarrow> string \<Rightarrow> string" where
  "replace_first old new [] = (if old = [] then new else [])"
| "replace_first old new (c # s) =
     (if prefix old (c # s) then new @ drop (length old) (c # s)
      else c # replace_first old new s)"

text \<open>
  \<open>re.sub(pattern, replacement, content)\<close> for a pattern that is an escaped literal, as
  the five patterns of \<open>replacements\<close> are (\<open>console\.log\(\<close> is the text \<open>console.log(\<close>):
  the scan goes left to right and resumes after each replaced occurrence. The empty
  pattern, which the script does not use, changes nothing here.
\<close>

function re_sub :: "string \<Rightarrow> string \<Rightarrow> string \<Rightarrow> string" where
  "re_sub pat repl [] = []"
| "re_sub pat repl (c # s) =
     (if pat \<noteq> [] \<and> prefix pat (c # s)
      then repl @ re_sub pat repl (drop (length pat) (c # s))
      else c # re_sub pat repl s)"
  by pat_completeness auto
termination
  by (relation "measure (\<lambda>(pat, repl, s). length s)") (auto simp: neq_Nil_conv)

declare re_sub.simps(2) [simp del]

text \<open>
  The class \<open>\s\<close> of a \<open>str\<close> pattern is \<open>str.isspace\<close>: below 256 these are the code
  points 9 to 13, 28 to 32, 133 and 160.
\<close>

definition is_space :: "char \<Rightarrow> bool" where
  "is_space c = (of_char c \<in> {9, 10, 11, 12, 13, 28, 29, 30, 31, 32, 133, 160 :: nat})"

subsection \<open>The import pattern\<close>

text \<open>
  \<open>import_pattern = r'(import[^;]+;)'\<close> tried at the start of \<open>s\<close>. The class \<open>[^;]+\<close> is
  greedy and can only be followed by \<open>;\<close> when it has taken every character up to the
  next \<open>;\<close>; it needs at least one character.
\<close>

definition match_import_at :: "string \<Rightarrow> string option" where
  "match_import_at s =
     (if prefix ''import'' s then
        (let body = takeWhile (\<lambda>c. c \<noteq> CHR '';'') (drop 6 s);
             rest = dropWhile (\<lambda>c. c \<noteq> CHR '';'') (drop 6 s)
         in if body = [] \<or> rest = [] then None else Some (''import'' @ body @ '';''))
      else None)"

text \<open>\<open>re.findall(import_pattern, content)\<close>: the matches from left to right, not overlapping.\<close>

function findall_import :: "string \<Rightarrow> string list" where
  "findall_import [] = []"
| "findall_import (c # s) =
     (case match_import_at (c # s) of
        Some m \<Rightarrow> m # findall_import (drop (length m) (c # s))
      | None \<Rightarrow> findall_import s)"
  by pat_completeness auto
termination
  by (relation "measure length")
     (auto simp: match_import_at_def Let_def split: if_splits)

subsection \<open>The constructor pattern\<close>

text \<open>
  The end of the last occurrence of \<open>lit\<close> in \<open>b\<close>: where the greedy \<open>[^}]*\<close>, backtracking
  from the longest run, first finds \<open>lit\<close> behind it.
\<close>

fun last_end :: "string \<Rightarrow> string \<Rightarrow> nat option" where
  "last_end lit [] = (if lit = [] then Some 0 else None)"
| "last_end lit (c # b) =
     (case last_end lit b of
        Some k \<Rightarrow> Some (Suc k)
      | None \<Rightarrow> if prefix lit (c # b) then Some (length lit) else None)"

text \<open>
  \<open>constructor_pattern = r'(constructor\([^)]*\)\s*{[^}]*super\(\);)'\<close> tried at the start
  of \<open>s\<close>. \<open>[^)]*\<close> and \<open>\s*\<close> are followed by a character outside their class, so only
  their longest run can succeed; \<open>[^}]*\<close> is followed by \<open>super();\<close>, which lies inside
  the run, so the match ends at the last \<open>super();\<close> before the first \<open>}\<close>.
\<close>

definition match_constructor_at :: "string \<Rightarrow> string option" where
  "match_constructor_at s =
     (if prefix ''constructor('' s then
        (let params = takeWhile (\<lambda>c. c \<noteq> CHR '')'') (drop 12 s);
             s2 = dropWhile (\<lambda>c. c \<noteq> CHR '')'') (drop 12 s)
         in case s2 of
              [] \<Rightarrow> None
            | _ # s3 \<Rightarrow>
               (let ws = takeWhile is_space s3; s4 = dropWhile is_space s3
                in case s4 of
                     [] \<Rightarrow> None
                   | c # s5 \<Rightarrow>
                      if c = CHR ''{'' then
                        (case last_end ''super();'' (takeWhile (\<lambda>c. c \<noteq> CHR ''}'') s5) of
                           None \<Rightarrow> None
                         | Some k \<Rightarrow>
                             Some (''constructor('' @ params @ '')'' @ ws @ ''{'' @ take k s5))
                      else None))
      else None)"

text \<open>\<open>re.search(constructor_pattern, content, re.DOTALL)\<close>: the leftmost match, group 1.\<close>

fun search_constructor :: "string \<Rightarrow> string option" where
  "search_constructor [] = None"
| "search_constructor (c # s) =
     (case match_constructor_at (c # s) of
        Some m \<Rightarrow> Some m
      | None \<Rightarrow> search_constructor s)"

subsection \<open>The three edits of \<open>update_file\<close>\<close>

definition import_line :: string where
  "import_line = ''import DebugLogger from './DebugLogger.js';''"

definition debug_line :: "string \<Rightarrow> string" where
  "debug_line class_name =
     ''\<newline>    this.debug = DebugLogger.create('' @ [CHR 0x27] @ class_name @ [CHR 0x27] @ '');''"

text \<open>Lines 39 to 49: the import, after the last import statement or at the top.\<close>

definition add_import :: "string \<Rightarrow> string" where
  "add_import content =
     (if \<not> sublist ''import DebugLogger'' content then
        (let imports = findall_import content
         in if imports \<noteq> [] then
              (let last_import = last imports;
                   replacement = last_import @ ''\<newline>'' @ import_line
               in replace_first last_import replacement content)
            else import_line @ ''\<newline>'' @ content)
      else content)"

text \<open>Lines 52 to 59: the logger instance, after the constructor's \<open>super();\<close>.\<close>

definition add_debug_instance :: "string \<Rightarrow> string \<Rightarrow> string" where
  "add_debug_instance class_name content =
     (if \<not> sublist ''this.debug = DebugLogger.create'' content then
        (case search_constructor content of
           Some old_constructor \<Rightarrow>
             replace_first old_constructor (old_constructor @ debug_line class_name) content
         | None \<Rightarrow> content)
      else content)"

text \<open>Lines 62 to 71: the five substitutions, in the order of the list.\<close>

datatype category = Log | Warn | Error | Info | Debug

fun category_name :: "category \<Rightarrow> string" where
  "category_name Log = ''log''"
| "category_name Warn = ''warn''"
| "category_name Error = ''error''"
| "category_name Info = ''info''"
| "category_name Debug = ''debug''"

definition console_call :: "category \<Rightarrow> string" where
  "console_call k = ''console.'' @ category_name k @ ''(''"

definition debug_call :: "category \<Rightarrow> string" where
  "debug_call k = ''this.debug.'' @ category_name k @ ''(''"

definition replacements :: "(string \<times> string) list" where
  "replacements = map (\<lambda>k. (console_call k, debug_call k)) [Log, Warn, Error, Info, Debug]"

definition replace_console :: "string \<Rightarrow> string" where
  "replace_console content = fold (\<lambda>(pat, repl) c. re_sub pat repl c) replacements content"

text \<open>What \<open>update_file\<close> writes back for a file whose content it has read.\<close>

definition update_content :: "string \<Rightarrow> string \<Rightarrow> string" where
  "update_content content class_name =
     replace_console (add_debug_instance class_name (add_import content))"

subsection \<open>Files and the batch\<close>

text \<open>
  The file system maps the paths of the existing files to their contents; the lines
  printed and the files opened are recorded in the order they happen. A printed line
  is kept by its format: \<open>File_not_found p\<close> is \<open>File p not found, skipping...\<close>,
  \<open>Updating p\<close> is \<open>Updating p...\<close>, \<open>Updated p\<close> is the line with the check mark and
  \<open>Updated p\<close>, and \<open>Banner\<close> holds a line without a path.
\<close>

datatype message =
    File_not_found string
  | Updating string
  | Updated string
  | Banner string

datatype access = Opened_read string | Opened_write string

record world =
  files :: "string \<rightharpoonup> string"
  printed :: "message list"
  opened :: "access list"

definition update_file :: "string \<Rightarrow> string \<Rightarrow> world \<Rightarrow> world" where
  "update_file filepath class_name w =
     (case files w filepath of
        None \<Rightarrow> w\<lparr>printed := printed w @ [File_not_found filepath]\<rparr>
      | Some content \<Rightarrow>
          w\<lparr>files := (files w)(filepath \<mapsto> update_content content class_name),
            printed := printed w @ [Updating filepath, Updated filepath],
            opened := opened w @ [Opened_read filepath, Opened_write filepath]\<rparr>)"

definition files_config :: "(string \<times> string) list" where
  "files_config =
     [(''src/CleanupManager.js'', ''CleanupManager''),
      (''src/CryptoManager.js'', ''CryptoManager''),
      (''src/DistributedStorageManager.js'', ''DistributedStorageManager''),
      (''src/EnvironmentDetector.js'', ''EnvironmentDetector''),
      (''src/EventEmitter.js'', ''EventEmitter''),
      (''src/EvictionManager.js'', ''EvictionManager''),
      (''src/MediaManager.js'', ''MediaManager''),
      (''src/MeshOptimizer.js'', ''MeshOptimizer''),
      (''src/PeerDiscovery.js'', ''PeerDiscovery''),
      (''src/PeerPigeonMesh.js'', ''PeerPigeonMesh''),
      (''src/SignalingClient.js'', ''SignalingClient''),
      (''src/SignalingHandler.js'', ''SignalingHandler''),
      (''src/StorageManager.js'', ''StorageManager''),
      (''src/TimerUtils.js'', ''TimerUtils''),
      (''src/WebDHT.js'', ''WebDHT'')]"

text \<open>The loop of \<open>main\<close> over the items of a configuration.\<close>

definition update_all :: "(string \<times> string) list \<Rightarrow> world \<Rightarrow> world" where
  "update_all config w = fold (\<lambda>(filepath, class_name). update_file filepath class_name) config w"

definition print_lines :: "string list \<Rightarrow> world \<Rightarrow> world" where
  "print_lines ls w = w\<lparr>printed := printed w @ map Banner ls\<rparr>"

definition main_with :: "(string \<times> string) list \<Rightarrow> world \<Rightarrow> world" where
  "main_with config w =
     print_lines
       [''\<newline>Debug logger integration complete!'',
        ''\<newline>Usage examples:'',
        ''  // Enable all debugging'',
        ''  DebugLogger.enableAll();'',
        '''',
        ''  // Enable specific modules'',
        ''  DebugLogger.enable('GossipManager');'',
        ''  DebugLogger.enable('PeerConnection');'',
        '''',
        ''  // Enable multiple modules'',
        ''  DebugLogger.enableModules(['GossipManager', 'ConnectionManager', 'PeerConnection']);'',
        '''',
        ''  // Disable all (default state)'',
        ''  DebugLogger.disableAll();'']
       (update_all config
          (print_lines
             [''Updating PeerPigeon files to use DebugLogger...'', replicate 50 (CHR ''='')] w))"

definition main :: "world \<Rightarrow> world" where
  "main w = main_with files_config w"

subsection \<open>Notions used in the statements and proofs\<close>

text \<open>
  Two texts are apart when no occurrence of one can overlap an occurrence of the other:
  no non-empty end of one is a beginning of the other, or the other way round.
\<close>

fun tails_clear :: "string \<Rightarrow> string \<Rightarrow> bool" where
  "tails_clear [] b = True"
| "tails_clear (c # a) b = ((c # a) \<parallel> b \<and> tails_clear a b)"

definition apart :: "string \<Rightarrow> string \<Rightarrow> bool" where
  "apart a b = (tails_clear a b \<and> tails_clear b a)"

text \<open>One substitution of the list \<open>replacements\<close>.\<close>

definition step :: "category \<Rightarrow> string \<Rightarrow> string" where
  "step k = re_sub (console_call k) (debug_call k)"

text \<open>
  A document seen as texts without console calls, separated by call openers: the
  opener of category \<open>k\<close> is written \<open>f k\<close>.
\<close>

fun calls_doc :: "(category \<Rightarrow> string) \<Rightarrow> (string \<times> category) list \<Rightarrow> string \<Rightarrow> string" where
  "calls_doc f [] t = t"
| "calls_doc f ((u, k) # xs) t = u @ f k @ calls_doc f xs t"

definition call_free :: "string \<Rightarrow> bool" where
  "call_free t = list_all (\<lambda>k. \<not> sublist (console_call k) t) [Log, Warn, Error, Info, Debug]"

text \<open>
  The texts the constructor pattern can match, and the documents that contain one.
\<close>

definition constructor_prolog :: "string \<Rightarrow> bool" where
  "constructor_prolog m =
     (\<exists>params ws body.
        m = ''constructor('' @ params @ '')'' @ ws @ ''{'' @ body @ ''super();''
        \<and> CHR '')'' \<notin> set params \<and> list_all is_space ws \<and> CHR ''}'' \<notin> set body)"

definition has_constructor :: "string \<Rightarrow> bool" where
  "has_constructor s = (\<exists>pre m rest. s = pre @ m @ rest \<and> constructor_prolog m)"

text \<open>
  What follows the header \<open>constructor(\<close> in a match, piece by piece, and the texts
  that can be put into a document without making or breaking a match.
\<close>

definition after_brace :: "string \<Rightarrow> bool" where
  "after_brace r = (\<exists>body rest. r = body @ ''super();'' @ rest \<and> CHR ''}'' \<notin> set body)"

definition after_params :: "string \<Rightarrow> bool" where
  "after_params r = (\<exists>ws r3. r = ws @ ''{'' @ r3 \<and> list_all is_space ws \<and> after_brace r3)"

definition after_header :: "string \<Rightarrow> bool" where
  "after_header r = (\<exists>params r2. r = params @ '')'' @ r2 \<and> CHR '')'' \<notin> set params \<and> after_params r2)"

definition insertable :: "string \<Rightarrow> bool" where
  "insertable ins =
     (apart ''constructor('' ins \<and> apart ''super();'' ins
      \<and> CHR '')'' \<notin> set ins \<and> CHR ''{'' \<notin> set ins \<and> CHR ''}'' \<notin> set ins
      \<and> \<not> list_all is_space ins)"

text \<open>
  A substitution of \<open>p\<close> by \<open>r\<close> that cannot make a match of the constructor pattern:
  neither text overlaps the literals of the pattern, \<open>p\<close> has no \<open>)\<close> or \<open>}\<close>, and \<open>r\<close> is
  not white space only.
\<close>

definition harmless :: "string \<Rightarrow> string \<Rightarrow> bool" where
  "harmless p r =
     (apart ''constructor('' r \<and> tails_clear ''constructor('' p
      \<and> apart '')'' r \<and> tails_clear '')'' p
      \<and> apart ''{'' r \<and> tails_clear ''{'' p
      \<and> apart ''super();'' r \<and> tails_clear ''super();'' p
      \<and> CHR '')'' \<notin> set p \<and> CHR ''}'' \<notin> set p \<and> \<not> list_all is_space r)"

text \<open>The number of places where a text occurs in a document.\<close>

fun occurrences :: "string \<Rightarrow> string \<Rightarrow> nat" where
  "occurrences p [] = (if p = [] then 1 else 0)"
| "occurrences p (c # s) = (if prefix p (c # s) then 1 else 0) + occurrences p s"

text \<open>A world with one file, for the examples.\<close>

definition sample_world :: world where
  "sample_world = \<lparr>files = [''src/WebDHT.js'' \<mapsto> ''console.log(1)''], printed = [], opened = []\<rparr>"

section \<open>Properties\<close>

subsection \<open>Overlaps of texts\<close>

lemma tails_clearD: "tails_clear a b \<Longrightarrow> suffix t a \<Longrightarrow> t \<noteq> [] \<Longrightarrow> t \<parallel> b"
  by (induction a) (auto simp: suffix_Cons)

lemma tails_clear_tl: "tails_clear a b \<Longrightarrow> tails_clear (tl a) b"
  by (cases a) auto

lemma not_parallel_prefix_append: "prefix t (b @ x) \<Longrightarrow> t \<noteq> [] \<Longrightarrow> b \<noteq> [] \<Longrightarrow> \<not> t \<parallel> b"
  by (auto simp: prefix_append parallel_def)

lemma not_parallel_common: "t @ x = b @ y \<Longrightarrow> \<not> t \<parallel> b"
  by (auto simp: parallel_def append_eq_append_conv2)

subsection \<open>Literal substitution\<close>

lemma re_sub_miss:
  "\<not> (pat \<noteq> [] \<and> prefix pat (c # s)) \<Longrightarrow> re_sub pat repl (c # s) = c # re_sub pat repl s"
  by (auto simp: re_sub.simps(2))

lemma re_sub_hit:
  "pat \<noteq> [] \<Longrightarrow> prefix pat (c # s) \<Longrightarrow>
   re_sub pat repl (c # s) = repl @ re_sub pat repl (drop (length pat) (c # s))"
  by (auto simp: re_sub.simps(2))

lemma re_sub_skip:
  "tails_clear L p \<Longrightarrow> re_sub p r (L @ v) = L @ re_sub p r v"
proof (induction L)
  case Nil
  then show ?case by simp
next
  case (Cons c L)
  have "\<not> prefix p (c # L @ v)"
  proof
    assume "prefix p (c # L @ v)"
    then have "prefix p (c # L) \<or> prefix (c # L) p"
      using prefix_append[of p "c # L" v] by auto
    with Cons.prems show False by (auto simp: parallel_def)
  qed
  then have "re_sub p r (c # L @ v) = c # re_sub p r (L @ v)" by (simp add: re_sub_miss)
  with Cons show ?case by simp
qed

lemma re_sub_append:
  "tails_clear (tl p) L \<Longrightarrow> L \<noteq> [] \<Longrightarrow> re_sub p r (u @ L @ v) = re_sub p r u @ re_sub p r (L @ v)"
proof (induction p r u rule: re_sub.induct)
  case (1 pat repl)
  then show ?case by simp
next
  case (2 pat repl c s)
  show ?case
  proof (cases "pat \<noteq> [] \<and> prefix pat (c # s)")
    case True
    then have pp: "prefix pat (c # s @ L @ v)"
      using prefix_prefix[of pat "c # s" "L @ v"] by simp
    from True have len: "length pat \<le> length (c # s)" by (auto dest: prefix_length_le)
    have "drop (length pat) (c # s @ L @ v) = drop (length pat) (c # s) @ L @ v"
      using len by (metis append_Cons drop_append diff_is_0_eq drop0)
    with True pp 2 show ?thesis by (simp add: re_sub_hit)
  next
    case False
    have "\<not> (pat \<noteq> [] \<and> prefix pat (c # s @ L @ v))"
    proof
      assume a: "pat \<noteq> [] \<and> prefix pat (c # s @ L @ v)"
      then obtain t where t: "pat = (c # s) @ t" "prefix t (L @ v)"
        using False prefix_append[of pat "c # s" "L @ v"] by auto
      from t False a have "t \<noteq> []" by auto
      from t have "suffix t (tl pat)" by (auto simp: suffix_def)
      with "2.prems" \<open>t \<noteq> []\<close> have "t \<parallel> L" by (auto dest: tails_clearD)
      with t(2) \<open>t \<noteq> []\<close> "2.prems"(2) show False
        using not_parallel_prefix_append by blast
    qed
    then have l: "re_sub pat repl (c # s @ L @ v) = c # re_sub pat repl (s @ L @ v)"
      by (rule re_sub_miss)
    from False have r: "re_sub pat repl (c # s) = c # re_sub pat repl s"
      by (rule re_sub_miss)
    from "2.IH"(2)[OF False "2.prems"] l r show ?thesis by simp
  qed
qed

lemma re_sub_keeps:
  assumes "tails_clear (tl p) L" "tails_clear L p" "L \<noteq> []"
  shows "re_sub p r (u @ L @ v) = re_sub p r u @ L @ re_sub p r v"
  using assms by (simp add: re_sub_append re_sub_skip)

lemma re_sub_at:
  assumes "tails_clear (tl p) p" "p \<noteq> []"
  shows "re_sub p r (u @ p @ v) = re_sub p r u @ r @ re_sub p r v"
proof -
  have "re_sub p r (p @ v) = r @ re_sub p r v"
    using assms(2) by (cases p) (auto simp: re_sub_hit)
  with assms show ?thesis by (simp add: re_sub_append)
qed

lemma re_sub_absent: "\<not> sublist p s \<Longrightarrow> re_sub p r s = s"
proof (induction p r s rule: re_sub.induct)
  case (1 pat repl)
  then show ?case by simp
next
  case (2 pat repl c s)
  from "2.prems" have np: "\<not> prefix pat (c # s)" and ns: "\<not> sublist pat s"
    by (auto simp: sublist_Cons_right)
  from np have "re_sub pat repl (c # s) = c # re_sub pat repl s" by (simp add: re_sub_miss)
  with "2.IH"(2) np ns show ?case by simp
qed

lemma sublist_re_sub:
  assumes "sublist M s" "tails_clear (tl p) M" "tails_clear M p" "M \<noteq> []"
  shows "sublist M (re_sub p r s)"
proof -
  from assms(1) obtain a b where "s = a @ M @ b" by (auto simp: sublist_def)
  with assms show ?thesis by (auto simp: re_sub_keeps sublist_def)
qed

lemma prefix_re_sub:
  "tails_clear L r \<Longrightarrow> suffix t L \<Longrightarrow> prefix t (re_sub p r s) \<Longrightarrow> prefix t s"
proof (induction p r s arbitrary: t rule: re_sub.induct)
  case (1 pat repl)
  then show ?case by simp
next
  case (2 pat repl c s)
  show ?case
  proof (cases "t = []")
    case True
    then show ?thesis by simp
  next
    case tne: False
    show ?thesis
    proof (cases "pat \<noteq> [] \<and> prefix pat (c # s)")
      case True
      then have "re_sub pat repl (c # s) = repl @ re_sub pat repl (drop (length pat) (c # s))"
        by (simp add: re_sub_hit)
      with "2.prems"(3) have "prefix t (repl @ re_sub pat repl (drop (length pat) (c # s)))"
        by simp
      then have "prefix t repl \<or> prefix repl t"
        using prefix_append[of t repl] by auto
      moreover have "t \<parallel> repl" using "2.prems" tne by (auto dest: tails_clearD)
      ultimately show ?thesis by (auto simp: parallel_def)
    next
      case False
      then have "re_sub pat repl (c # s) = c # re_sub pat repl s" by (rule re_sub_miss)
      with "2.prems"(3) tne obtain t' where t': "t = c # t'" "prefix t' (re_sub pat repl s)"
        by (cases t) auto
      from t' "2.prems"(2) have "suffix t' L" by (auto dest: suffix_ConsD)
      from "2.IH"(2)[OF False "2.prems"(1) this t'(2)] t'(1) show ?thesis by simp
    qed
  qed
qed

text \<open>An occurrence of L in the result comes from an occurrence in the input.\<close>

lemma re_sub_split:
  "apart L r \<Longrightarrow> tails_clear L p \<Longrightarrow> L \<noteq> [] \<Longrightarrow> re_sub p r s = u @ L @ v \<Longrightarrow>
   \<exists>u0 v0. s = u0 @ L @ v0 \<and> re_sub p r u0 = u \<and> re_sub p r v0 = v"
proof (induction p r s arbitrary: u rule: re_sub.induct)
  case (1 pat repl)
  then show ?case by simp
next
  case (2 pat repl c s)
  from "2.prems"(1) have ar: "tails_clear L repl" "tails_clear repl L" by (auto simp: apart_def)
  show ?case
  proof (cases "pat \<noteq> [] \<and> prefix pat (c # s)")
    case hit: True
    then obtain s' where cs: "c # s = pat @ s'" by (auto simp: prefix_def)
    then have dr: "drop (length pat) (c # s) = s'" by simp
    from hit have "re_sub pat repl (c # s) = repl @ re_sub pat repl s'"
      unfolding dr[symmetric] by (simp add: re_sub_hit)
    with "2.prems"(4) have eq: "repl @ re_sub pat repl s' = u @ L @ v" by simp
    then obtain t where t: "(repl = u @ t \<and> t @ re_sub pat repl s' = L @ v)
        \<or> (repl @ t = u \<and> re_sub pat repl s' = t @ L @ v)"
      unfolding append_eq_append_conv2 by blast
    show ?thesis
    proof (cases "repl @ t = u \<and> re_sub pat repl s' = t @ L @ v")
      case True
      then have "re_sub pat repl (drop (length pat) (c # s)) = t @ L @ v" using dr by simp
      from "2.IH"(1)[OF hit "2.prems"(1,2,3) this] dr
      obtain u0 v0 where uv: "s' = u0 @ L @ v0" "re_sub pat repl u0 = t" "re_sub pat repl v0 = v"
        by auto
      have "re_sub pat repl (pat @ u0) = repl @ re_sub pat repl u0"
        using hit by (cases pat) (auto simp: re_sub_hit)
      with uv True have "c # s = (pat @ u0) @ L @ v0 \<and> re_sub pat repl (pat @ u0) = u
          \<and> re_sub pat repl v0 = v"
        using cs by simp
      then show ?thesis by blast
    next
      case False
      with t have t1: "repl = u @ t" "t @ re_sub pat repl s' = L @ v" by auto
      show ?thesis
      proof (cases "t = []")
        case True
        with t1 False show ?thesis by auto
      next
        case tne: False
        from t1(1) have "suffix t repl" by (auto simp: suffix_def)
        with ar(2) tne have "t \<parallel> L" by (auto dest: tails_clearD)
        with t1(2) show ?thesis using not_parallel_common by blast
      qed
    qed
  next
    case False
    then have miss: "re_sub pat repl (c # s) = c # re_sub pat repl s" by (rule re_sub_miss)
    show ?thesis
    proof (cases u)
      case Nil
      with "2.prems"(4) have "prefix L (re_sub pat repl (c # s))" by (simp add: prefix_def)
      with ar(1) have "prefix L (c # s)" using prefix_re_sub[of L repl L] by simp
      then obtain s0 where s0: "c # s = L @ s0" by (auto simp: prefix_def)
      from "2.prems"(2) have "re_sub pat repl (L @ s0) = L @ re_sub pat repl s0"
        by (rule re_sub_skip)
      with "2.prems"(4) Nil s0 have "v = re_sub pat repl s0" by simp
      with s0 Nil have "c # s = [] @ L @ s0 \<and> re_sub pat repl [] = u \<and> re_sub pat repl s0 = v"
        by simp
      then show ?thesis by blast
    next
      case (Cons d u')
      with miss "2.prems"(4) have dc: "d = c" and rest: "re_sub pat repl s = u' @ L @ v" by auto
      from "2.IH"(2)[OF False "2.prems"(1,2,3) rest]
      obtain u0 v0 where uv: "s = u0 @ L @ v0" "re_sub pat repl u0 = u'" "re_sub pat repl v0 = v"
        by auto
      have "\<not> (pat \<noteq> [] \<and> prefix pat (c # u0))"
        using False uv(1) prefix_prefix[of pat "c # u0" "L @ v0"] by auto
      then have "re_sub pat repl (c # u0) = c # re_sub pat repl u0" by (rule re_sub_miss)
      with uv Cons dc have "c # s = (c # u0) @ L @ v0 \<and> re_sub pat repl (c # u0) = u
          \<and> re_sub pat repl v0 = v" by simp
      then show ?thesis by blast
    qed
  qed
qed

lemma re_sub_creates_not:
  assumes "sublist L (re_sub p r s)" "apart L r" "tails_clear L p" "L \<noteq> []"
  shows "sublist L s"
proof -
  from assms(1) obtain u v where "re_sub p r s = u @ L @ v" by (auto simp: sublist_def)
  from re_sub_split[OF assms(2,3,4) this] show ?thesis by (auto simp: sublist_def)
qed

text \<open>The pattern itself is gone after the substitution.\<close>

lemma re_sub_removes_aux:
  "apart p r \<Longrightarrow> p \<noteq> [] \<Longrightarrow> re_sub p r s \<noteq> u @ p @ v"
proof (induction p r s arbitrary: u rule: re_sub.induct)
  case (1 pat repl)
  then show ?case by simp
next
  case (2 pat repl c s)
  from "2.prems"(1) have ar: "tails_clear pat repl" "tails_clear repl pat"
    by (auto simp: apart_def)
  show ?case
  proof
    assume eq: "re_sub pat repl (c # s) = u @ pat @ v"
    show False
    proof (cases "pat \<noteq> [] \<and> prefix pat (c # s)")
      case hit: True
      let ?s' = "drop (length pat) (c # s)"
      from hit have "re_sub pat repl (c # s) = repl @ re_sub pat repl ?s'"
        by (simp add: re_sub_hit)
      with eq have "repl @ re_sub pat repl ?s' = u @ pat @ v" by simp
      then obtain t where t: "(repl = u @ t \<and> t @ re_sub pat repl ?s' = pat @ v)
          \<or> (repl @ t = u \<and> re_sub pat repl ?s' = t @ pat @ v)"
        unfolding append_eq_append_conv2 by blast
      show False
      proof (cases "t = []")
        case True
        with t have "re_sub pat repl ?s' = [] @ pat @ v" by auto
        with "2.IH"(1)[OF hit "2.prems", of "[]"] show False by simp
      next
        case tne: False
        from t show False
        proof
          assume a: "repl = u @ t \<and> t @ re_sub pat repl ?s' = pat @ v"
          then have "suffix t repl" by (auto simp: suffix_def)
          with ar(2) tne have "t \<parallel> pat" by (auto dest: tails_clearD)
          with a show False using not_parallel_common by blast
        next
          assume "repl @ t = u \<and> re_sub pat repl ?s' = t @ pat @ v"
          with "2.IH"(1)[OF hit "2.prems", of t] show False by simp
        qed
      qed
    next
      case False
      then have miss: "re_sub pat repl (c # s) = c # re_sub pat repl s" by (rule re_sub_miss)
      show False
      proof (cases u)
        case Nil
        with eq have "prefix pat (re_sub pat repl (c # s))" by (simp add: prefix_def)
        with ar(1) have "prefix pat (c # s)" using prefix_re_sub[of pat repl pat] by simp
        with False "2.prems"(2) show False by simp
      next
        case (Cons d u')
        with miss eq have "re_sub pat repl s = u' @ pat @ v" by auto
        with "2.IH"(2)[OF False "2.prems", of u'] show False by simp
      qed
    qed
  qed
qed

lemma re_sub_removes: "apart p r \<Longrightarrow> p \<noteq> [] \<Longrightarrow> \<not> sublist p (re_sub p r s)"
  using re_sub_removes_aux by (auto simp: sublist_def)

subsection \<open>The substitution of the call sites\<close>

lemma replace_console_steps:
  "replace_console s = step Debug (step Info (step Error (step Warn (step Log s))))"
  by (simp add: replace_console_def replacements_def step_def)

lemma tails_clear_hd: "b \<noteq> [] \<Longrightarrow> hd b \<notin> set a \<Longrightarrow> tails_clear a b"
proof (induction a)
  case Nil
  then show ?case by simp
next
  case (Cons c a)
  then have "(c # a) \<parallel> b" by (cases b) (auto intro: Cons_parallelI1)
  with Cons show ?case by simp
qed

lemma console_call_ne: "console_call k \<noteq> []"
  by (simp add: console_call_def)

lemma hd_console: "hd (console_call k) = CHR ''c''" "tl (console_call k) = ''onsole.'' @ category_name k @ ''(''"
  by (simp_all add: console_call_def)

lemma c_notin_category: "CHR ''c'' \<notin> set (category_name k)" "CHR ''t'' \<notin> set (category_name k)"
  by (cases k; simp)+

lemma cc_self: "tails_clear (tl (console_call k)) (console_call j)"
  by (rule tails_clear_hd) (simp_all add: console_call_ne hd_console c_notin_category)

lemma cc_other: "j \<noteq> k \<Longrightarrow> tails_clear (console_call j) (console_call k)"
proof -
  assume "j \<noteq> k"
  then have "category_name j @ ''('' \<parallel> category_name k @ ''(''"
    by (cases j; cases k; simp add: parallel_def)
  then have "console_call j \<parallel> console_call k"
    by (simp add: console_call_def parallel_def)
  moreover have "console_call j = CHR ''c'' # tl (console_call j)"
    by (simp add: console_call_def)
  ultimately show ?thesis using cc_self[of j k]
    by (metis tails_clear.simps(2))
qed

lemma cc_dc: "apart (console_call j) (debug_call k)"
  unfolding apart_def
proof
  show "tails_clear (console_call j) (debug_call k)"
    by (rule tails_clear_hd) (simp_all add: console_call_def debug_call_def c_notin_category)
  show "tails_clear (debug_call k) (console_call j)"
    by (rule tails_clear_hd) (simp_all add: console_call_def debug_call_def c_notin_category)
qed

lemma call_free_iff: "call_free t \<longleftrightarrow> (\<forall>k. \<not> sublist (console_call k) t)"
proof
  assume "call_free t"
  then show "\<forall>k. \<not> sublist (console_call k) t"
    unfolding call_free_def by (intro allI, case_tac k) simp_all
next
  assume "\<forall>k. \<not> sublist (console_call k) t"
  then show "call_free t" by (simp add: call_free_def)
qed

lemma step_console:
  "j \<noteq> k \<Longrightarrow> step j (u @ console_call k @ v) = step j u @ console_call k @ step j v"
  unfolding step_def
  by (rule re_sub_keeps) (simp_all add: cc_self cc_other console_call_ne)

lemma step_hit: "step k (u @ console_call k @ v) = step k u @ debug_call k @ step k v"
  unfolding step_def
  by (rule re_sub_at) (simp_all add: cc_self console_call_ne)

lemma debug_call_ne: "debug_call k \<noteq> []"
  by (simp add: debug_call_def)

lemma step_debug: "step j (u @ debug_call k @ v) = step j u @ debug_call k @ step j v"
  unfolding step_def
proof (rule re_sub_keeps)
  from cc_dc[of j k] show "tails_clear (tl (console_call j)) (debug_call k)"
    by (simp add: apart_def tails_clear_tl)
  from cc_dc[of j k] show "tails_clear (debug_call k) (console_call j)"
    by (simp add: apart_def)
  show "debug_call k \<noteq> []" by (rule debug_call_ne)
qed

lemma replace_console_call:
  "replace_console (u @ console_call k @ v)
     = replace_console u @ debug_call k @ replace_console v"
  by (cases k) (simp_all add: replace_console_steps step_console step_hit step_debug)

lemma step_absent: "\<not> sublist (console_call k) t \<Longrightarrow> step k t = t"
  unfolding step_def by (rule re_sub_absent)

lemma replace_console_free: "call_free t \<Longrightarrow> replace_console t = t"
  by (simp add: call_free_iff replace_console_steps step_absent)

lemma step_removes: "\<not> sublist (console_call k) (step k s)"
  unfolding step_def by (rule re_sub_removes) (simp_all add: cc_dc console_call_ne)

lemma step_creates_not:
  "j \<noteq> k \<Longrightarrow> sublist (console_call k) (step j s) \<Longrightarrow> sublist (console_call k) s"
  unfolding step_def
  using re_sub_creates_not[of "console_call k" "console_call j" "debug_call j" s]
  by (simp add: cc_dc cc_other console_call_ne)

lemma replace_console_removes: "\<not> sublist (console_call k) (replace_console s)"
proof (cases k)
  case Log
  have "\<not> sublist (console_call Log) (step Log s)" by (rule step_removes)
  then have "\<not> sublist (console_call Log) (step Warn (step Log s))"
    using step_creates_not[of Warn Log] by blast
  then have "\<not> sublist (console_call Log) (step Error (step Warn (step Log s)))"
    using step_creates_not[of Error Log] by blast
  then have "\<not> sublist (console_call Log) (step Info (step Error (step Warn (step Log s))))"
    using step_creates_not[of Info Log] by blast
  then have "\<not> sublist (console_call Log)
      (step Debug (step Info (step Error (step Warn (step Log s)))))"
    using step_creates_not[of Debug Log] by blast
  with Log show ?thesis by (simp add: replace_console_steps)
next
  case Warn
  have "\<not> sublist (console_call Warn) (step Warn (step Log s))" by (rule step_removes)
  then have "\<not> sublist (console_call Warn) (step Error (step Warn (step Log s)))"
    using step_creates_not[of Error Warn] by blast
  then have "\<not> sublist (console_call Warn) (step Info (step Error (step Warn (step Log s))))"
    using step_creates_not[of Info Warn] by blast
  then have "\<not> sublist (console_call Warn)
      (step Debug (step Info (step Error (step Warn (step Log s)))))"
    using step_creates_not[of Debug Warn] by blast
  with Warn show ?thesis by (simp add: replace_console_steps)
next
  case Error
  have "\<not> sublist (console_call Error) (step Error (step Warn (step Log s)))"
    by (rule step_removes)
  then have "\<not> sublist (console_call Error) (step Info (step Error (step Warn (step Log s))))"
    using step_creates_not[of Info Error] by blast
  then have "\<not> sublist (console_call Error)
      (step Debug (step Info (step Error (step Warn (step Log s)))))"
    using step_creates_not[of Debug Error] by blast
  with Error show ?thesis by (simp add: replace_console_steps)
next
  case Info
  have "\<not> sublist (console_call Info) (step Info (step Error (step Warn (step Log s))))"
    by (rule step_removes)
  then have "\<not> sublist (console_call Info)
      (step Debug (step Info (step Error (step Warn (step Log s)))))"
    using step_creates_not[of Debug Info] by blast
  with Info show ?thesis by (simp add: replace_console_steps)
next
  case Debug
  have "\<not> sublist (console_call Debug)
      (step Debug (step Info (step Error (step Warn (step Log s)))))"
    by (rule step_removes)
  with Debug show ?thesis by (simp add: replace_console_steps)
qed

lemma first_call:
  "\<not> call_free s \<Longrightarrow> \<exists>u k v. s = u @ console_call k @ v \<and> call_free u"
proof (induction s)
  case Nil
  then show ?case by (simp add: call_free_iff console_call_ne)
next
  case (Cons c s)
  show ?case
  proof (cases "\<exists>k. prefix (console_call k) (c # s)")
    case True
    then obtain k v where "c # s = [] @ console_call k @ v" by (auto simp: prefix_def)
    moreover have "call_free []" by (simp add: call_free_iff console_call_ne)
    ultimately show ?thesis by blast
  next
    case False
    with Cons.prems have "\<not> call_free s"
      by (auto simp: call_free_iff sublist_Cons_right console_call_ne)
    from Cons.IH[OF this] obtain u k v where s: "s = u @ console_call k @ v" and u: "call_free u"
      by blast
    have "call_free (c # u)"
      unfolding call_free_iff
    proof (intro allI notI)
      fix j assume "sublist (console_call j) (c # u)"
      then have "prefix (console_call j) (c # u) \<or> sublist (console_call j) u"
        by (auto simp: sublist_Cons_right console_call_ne)
      then show False
      proof
        assume "prefix (console_call j) (c # u)"
        then have "prefix (console_call j) ((c # u) @ console_call k @ v)" by (rule prefix_prefix)
        with False s show False by auto
      next
        assume "sublist (console_call j) u"
        with u show False by (simp add: call_free_iff)
      qed
    qed
    with s have "c # s = (c # u) @ console_call k @ v \<and> call_free (c # u)" by simp
    then show ?thesis by blast
  qed
qed

lemma calls_doc_exists:
  "\<exists>xs t. D = calls_doc console_call xs t \<and> (\<forall>(u, k)\<in>set xs. call_free u) \<and> call_free t"
proof (induction D rule: length_induct)
  case (1 D)
  show ?case
  proof (cases "call_free D")
    case True
    show ?thesis
      by (rule exI[of _ "[]"], rule exI[of _ D]) (simp add: True)
  next
    case False
    from first_call[OF this] obtain u k v where D: "D = u @ console_call k @ v" and u: "call_free u"
      by blast
    then have "length v < length D" by (simp add: console_call_ne)
    with 1 have "\<exists>xs t. v = calls_doc console_call xs t
        \<and> (\<forall>(u, k)\<in>set xs. call_free u) \<and> call_free t"
      by (simp del: calls_doc.simps)
    then obtain xs t where v: "v = calls_doc console_call xs t"
        and xs: "\<forall>(u, k)\<in>set xs. call_free u" and t: "call_free t"
      by (elim exE conjE)
    show ?thesis
      by (rule exI[of _ "(u, k) # xs"], rule exI[of _ t]) (use D v xs u t in simp)
  qed
qed

lemma replace_console_calls_doc:
  "(\<forall>(u, k)\<in>set xs. call_free u) \<Longrightarrow> call_free t \<Longrightarrow>
   replace_console (calls_doc console_call xs t) = calls_doc debug_call xs t"
proof (induction xs)
  case Nil
  then show ?case by (simp add: replace_console_free)
next
  case (Cons e xs)
  obtain u k where e: "e = (u, k)" by (cases e)
  with Cons show ?case by (simp add: replace_console_call replace_console_free)
qed

text \<open>
  Claim C2. Every document is a sequence of texts free of console calls, separated by
  call openers \<open>console.log(\<close>, \<open>console.warn(\<close>, \<open>console.error(\<close>, \<open>console.info(\<close>,
  \<open>console.debug(\<close>, and the substitution step replaces each opener by \<open>this.debug.\<close> with
  the same category and leaves the texts between them, the arguments among them,
  as they are, whatever the text around a call is. No console call opener is left.
\<close>

theorem call_sites_replaced:
  "(\<exists>xs t. D = calls_doc console_call xs t \<and> (\<forall>(u, k)\<in>set xs. call_free u) \<and> call_free t)
   \<and> ((\<forall>(u, k)\<in>set xs. call_free u) \<and> call_free t \<longrightarrow>
        replace_console (calls_doc console_call xs t) = calls_doc debug_call xs t)
   \<and> call_free (replace_console D)"
proof (intro conjI impI)
  show "\<exists>xs t. D = calls_doc console_call xs t \<and> (\<forall>(u, k)\<in>set xs. call_free u) \<and> call_free t"
    by (rule calls_doc_exists)
  show "call_free (replace_console D)"
    unfolding call_free_iff by (simp add: replace_console_removes)
  assume "(\<forall>(u, k)\<in>set xs. call_free u) \<and> call_free t"
  then show "replace_console (calls_doc console_call xs t) = calls_doc debug_call xs t"
    by (simp add: replace_console_calls_doc)
qed

theorem call_sites_replaced_witness:
  "call_free ''f(); // '' \<and> call_free ''; a = \"'' \<and> call_free ''x)\";''
   \<and> replace_console ''f(); // console.log(; a = \"console.warn(x)\";''
       = ''f(); // this.debug.log(; a = \"this.debug.warn(x)\";''"
proof -
  have h: "call_free ''f(); // '' \<and> call_free ''; a = \"'' \<and> call_free ''x)\";''"
    by (simp add: call_free_def console_call_def sublist_code(3))
  then have "(\<forall>(u, k)\<in>set [(''f(); // '', Log), (''; a = \"'', Warn)]. call_free u)
      \<and> call_free ''x)\";''"
    by simp
  with call_sites_replaced[of "[]" "[(''f(); // '', Log), (''; a = \"'', Warn)]" "''x)\";''"]
  have "replace_console (calls_doc console_call [(''f(); // '', Log), (''; a = \"'', Warn)] ''x)\";'')
      = calls_doc debug_call [(''f(); // '', Log), (''; a = \"'', Warn)] ''x)\";''"
    by blast
  with h show ?thesis by (simp add: console_call_def debug_call_def)
qed

subsection \<open>The constructor pattern and the logger instance\<close>

lemma last_end_None: "lit \<noteq> [] \<Longrightarrow> last_end lit b = None \<longleftrightarrow> \<not> sublist lit b"
  by (induction b) (auto simp: sublist_Cons_right split: option.splits)

lemma last_end_Some:
  "lit \<noteq> [] \<Longrightarrow> last_end lit b = Some k \<Longrightarrow>
   \<exists>body rest. b = body @ lit @ rest \<and> k = length body + length lit
      \<and> \<not> sublist lit (tl lit @ rest)"
proof (induction b arbitrary: k)
  case Nil
  then show ?case by simp
next
  case (Cons c b)
  show ?case
  proof (cases "last_end lit b")
    case None
    with Cons.prems have p: "prefix lit (c # b)" and k: "k = length lit"
      by (auto split: if_splits)
    from p obtain rest where r: "c # b = lit @ rest" by (auto simp: prefix_def)
    with Cons.prems(1) have "b = tl lit @ rest" by (cases lit) auto
    with None Cons.prems(1) have "\<not> sublist lit (tl lit @ rest)"
      by (simp add: last_end_None)
    with r k have "c # b = [] @ lit @ rest \<and> k = length ([]::string) + length lit
        \<and> \<not> sublist lit (tl lit @ rest)" by simp
    then show ?thesis by blast
  next
    case (Some j)
    with Cons.prems have k: "k = Suc j" by simp
    from Cons.IH[OF Cons.prems(1) Some] obtain body rest where
      b: "b = body @ lit @ rest" "j = length body + length lit" "\<not> sublist lit (tl lit @ rest)"
      by blast
    with k have "c # b = (c # body) @ lit @ rest \<and> k = length (c # body) + length lit
        \<and> \<not> sublist lit (tl lit @ rest)" by simp
    then show ?thesis by blast
  qed
qed

lemma dropWhile_Cons_hd: "dropWhile P xs = y # ys \<Longrightarrow> \<not> P y"
  using hd_dropWhile[of P xs] by auto

lemma takeWhile_run:
  "(\<forall>x\<in>set xs. P x) \<Longrightarrow> \<not> P y \<Longrightarrow> takeWhile P (xs @ y # ys) = xs"
  by (induction xs) auto

lemma dropWhile_run:
  "(\<forall>x\<in>set xs. P x) \<Longrightarrow> \<not> P y \<Longrightarrow> dropWhile P (xs @ y # ys) = y # ys"
  by (induction xs) auto

lemma take_two: "k = length a + length b \<Longrightarrow> take k (a @ b @ c) = a @ b"
  by simp

lemma match_constructor_atD:
  assumes "match_constructor_at s = Some m"
  shows "\<exists>params ws body rest.
           s = m @ rest
         \<and> m = ''constructor('' @ params @ '')'' @ ws @ ''{'' @ body @ ''super();''
         \<and> CHR '')'' \<notin> set params \<and> list_all is_space ws \<and> CHR ''}'' \<notin> set body
         \<and> \<not> sublist ''super();'' (''uper();'' @ takeWhile (\<lambda>c. c \<noteq> CHR ''}'') rest)"
proof -
  let ?K = "''constructor(''" and ?S = "''super();''"
  from assms have pK: "prefix ?K s"
    unfolding match_constructor_at_def by (simp split: if_splits)
  define s1 where "s1 = drop 12 s"
  from pK have s: "s = ?K @ s1" unfolding s1_def by (auto simp: prefix_def)
  define params where "params = takeWhile (\<lambda>c. c \<noteq> CHR '')'') s1"
  define s2 where "s2 = dropWhile (\<lambda>c. c \<noteq> CHR '')'') s1"
  have s1: "s1 = params @ s2" unfolding params_def s2_def by simp
  have np: "CHR '')'' \<notin> set params"
    unfolding params_def by (auto dest: set_takeWhileD)
  from assms pK obtain d s3 where s2c: "s2 = d # s3"
    unfolding match_constructor_at_def s2_def s1_def
    by (cases "dropWhile (\<lambda>c. c \<noteq> CHR '')'') (drop 12 s)") (simp_all add: Let_def)
  then have d: "d = CHR '')''" unfolding s2_def using dropWhile_Cons_hd by fastforce
  define ws where "ws = takeWhile is_space s3"
  define s4 where "s4 = dropWhile is_space s3"
  have s3: "s3 = ws @ s4" unfolding ws_def s4_def by simp
  have wsp: "list_all is_space ws"
    unfolding ws_def list_all_iff by (auto dest: set_takeWhileD)
  from assms pK s2c have m1: "(case s4 of [] \<Rightarrow> None
      | c # s5 \<Rightarrow> if c = CHR ''{'' then
          (case last_end ?S (takeWhile (\<lambda>c. c \<noteq> CHR ''}'') s5) of None \<Rightarrow> None
           | Some k \<Rightarrow> Some (?K @ params @ '')'' @ ws @ ''{'' @ take k s5)) else None) = Some m"
    unfolding match_constructor_at_def s2_def s1_def params_def ws_def s4_def
    by (simp add: Let_def)
  then obtain c s5 where s4c: "s4 = c # s5" by (cases s4) simp_all
  with m1 have c: "c = CHR ''{''" by (simp split: if_splits)
  define run where "run = takeWhile (\<lambda>c. c \<noteq> CHR ''}'') s5"
  from m1 s4c c obtain k where k: "last_end ?S run = Some k"
    and m: "m = ?K @ params @ '')'' @ ws @ ''{'' @ take k s5"
    unfolding run_def by (simp split: option.splits)
  from last_end_Some[OF _ k] obtain body r1 where
    run: "run = body @ ?S @ r1" and kl: "k = length body + length ?S"
    and last: "\<not> sublist ?S (tl ?S @ r1)" by auto
  have s5: "s5 = run @ dropWhile (\<lambda>c. c \<noteq> CHR ''}'') s5" unfolding run_def by simp
  define rest where "rest = r1 @ dropWhile (\<lambda>c. c \<noteq> CHR ''}'') s5"
  from s5 run have s5': "s5 = body @ ?S @ rest" unfolding rest_def by simp
  have tk: "take k s5 = body @ ?S" unfolding s5' using kl by (rule take_two)
  have "set run \<subseteq> {c. c \<noteq> CHR ''}''}" unfolding run_def by (auto dest: set_takeWhileD)
  with run have nb: "CHR ''}'' \<notin> set body" and nr: "\<forall>x\<in>set r1. x \<noteq> CHR ''}''" by auto
  have tw: "takeWhile (\<lambda>c. c \<noteq> CHR ''}'') rest = r1"
  proof (cases "dropWhile (\<lambda>c. c \<noteq> CHR ''}'') s5")
    case Nil
    have "takeWhile (\<lambda>c. c \<noteq> CHR ''}'') (r1 @ []) = r1"
      using nr by (simp add: takeWhile_eq_all_conv[THEN iffD2])
    then show ?thesis unfolding rest_def Nil .
  next
    case (Cons y ys)
    then have "\<not> y \<noteq> CHR ''}''" by (rule dropWhile_Cons_hd)
    with nr Cons show ?thesis unfolding rest_def
      using takeWhile_run[of r1 "\<lambda>c. c \<noteq> CHR ''}''" y ys] by simp
  qed
  have m': "m = ?K @ params @ '')'' @ ws @ ''{'' @ body @ ?S" unfolding m tk by simp
  have "s = ?K @ params @ '')'' @ ws @ ''{'' @ body @ ?S @ rest"
    using s s1 s2c d s3 s4c c s5' by simp
  then have "s = m @ rest" unfolding m' by simp
  moreover note m'
  moreover have "\<not> sublist ?S (''uper();'' @ takeWhile (\<lambda>c. c \<noteq> CHR ''}'') rest)"
    using last tw by simp
  ultimately show ?thesis using np wsp nb by blast
qed

lemma match_constructor_atI:
  assumes "CHR '')'' \<notin> set params" "list_all is_space ws" "CHR ''}'' \<notin> set body"
  shows "match_constructor_at
           (''constructor('' @ params @ '')'' @ ws @ ''{'' @ body @ ''super();'' @ rest) \<noteq> None"
proof -
  let ?K = "''constructor(''" and ?S = "''super();''"
  let ?s = "?K @ params @ '')'' @ ws @ ''{'' @ body @ ?S @ rest"
  have pK: "prefix ?K ?s" by simp
  have d12: "drop 12 ?s = params @ CHR '')'' # ws @ ''{'' @ body @ ?S @ rest" by simp
  have tp: "takeWhile (\<lambda>c. c \<noteq> CHR '')'') (drop 12 ?s) = params"
    unfolding d12 using assms(1) by (intro takeWhile_run) auto
  have dp: "dropWhile (\<lambda>c. c \<noteq> CHR '')'') (drop 12 ?s) = CHR '')'' # ws @ ''{'' @ body @ ?S @ rest"
    unfolding d12 using assms(1) by (intro dropWhile_run) auto
  have nsp: "\<not> is_space CHR ''{''" by (simp add: is_space_def)
  have w3: "ws @ ''{'' @ body @ ?S @ rest = ws @ CHR ''{'' # body @ ?S @ rest" by simp
  have tw: "takeWhile is_space (ws @ ''{'' @ body @ ?S @ rest) = ws"
    unfolding w3 using assms(2) nsp by (intro takeWhile_run) (auto simp: list_all_iff)
  have dw: "dropWhile is_space (ws @ ''{'' @ body @ ?S @ rest) = CHR ''{'' # body @ ?S @ rest"
    unfolding w3 using assms(2) nsp by (intro dropWhile_run) (auto simp: list_all_iff)
  have "sublist ?S (takeWhile (\<lambda>c. c \<noteq> CHR ''}'') (body @ ?S @ rest))"
  proof -
    have "takeWhile (\<lambda>c. c \<noteq> CHR ''}'') ((body @ ?S) @ rest)
        = (body @ ?S) @ takeWhile (\<lambda>c. c \<noteq> CHR ''}'') rest"
      using assms(3) by (intro takeWhile_append2) auto
    then show ?thesis by (auto simp: sublist_def)
  qed
  then have "last_end ?S (takeWhile (\<lambda>c. c \<noteq> CHR ''}'') (body @ ?S @ rest)) \<noteq> None"
    using last_end_None[of ?S] by simp
  then obtain k where k: "last_end ?S (takeWhile (\<lambda>c. c \<noteq> CHR ''}'') (body @ ?S @ rest)) = Some k"
    by auto
  show ?thesis
    unfolding match_constructor_at_def Let_def tp dp
    using pK tw dw k by simp
qed

lemma prolog_matches: "constructor_prolog m \<Longrightarrow> match_constructor_at (m @ rest) \<noteq> None"
  unfolding constructor_prolog_def
  using match_constructor_atI by auto

lemma search_constructor_Some:
  "search_constructor s = Some m \<Longrightarrow>
   \<exists>pre rest. s = pre @ m @ rest \<and> match_constructor_at (m @ rest) = Some m
     \<and> (\<forall>u v. pre = u @ v \<and> v \<noteq> [] \<longrightarrow> match_constructor_at (v @ m @ rest) = None)"
proof (induction s)
  case Nil
  then show ?case by simp
next
  case (Cons c s)
  show ?case
  proof (cases "match_constructor_at (c # s)")
    case (Some m')
    with Cons.prems have mm: "m' = m" by simp
    from match_constructor_atD[OF Some] mm obtain rest where "c # s = m @ rest" by blast
    with Some mm have "c # s = [] @ m @ rest \<and> match_constructor_at (m @ rest) = Some m
      \<and> (\<forall>u v. [] = u @ v \<and> v \<noteq> [] \<longrightarrow> match_constructor_at (v @ m @ rest) = None)"
      by simp
    then show ?thesis by blast
  next
    case None
    with Cons.prems have "search_constructor s = Some m" by simp
    from Cons.IH[OF this] obtain pre rest where
      s: "s = pre @ m @ rest" and mt: "match_constructor_at (m @ rest) = Some m"
      and left: "\<forall>u v. pre = u @ v \<and> v \<noteq> [] \<longrightarrow> match_constructor_at (v @ m @ rest) = None"
      by blast
    have "\<forall>u v. c # pre = u @ v \<and> v \<noteq> [] \<longrightarrow> match_constructor_at (v @ m @ rest) = None"
    proof (intro allI impI)
      fix u v assume a: "c # pre = u @ v \<and> v \<noteq> []"
      show "match_constructor_at (v @ m @ rest) = None"
      proof (cases u)
        case Nil
        with a have "v = c # pre" by simp
        with None s show ?thesis by simp
      next
        case (Cons d u')
        with a left show ?thesis by simp
      qed
    qed
    with s mt have "c # s = (c # pre) @ m @ rest \<and> match_constructor_at (m @ rest) = Some m
      \<and> (\<forall>u v. c # pre = u @ v \<and> v \<noteq> [] \<longrightarrow> match_constructor_at (v @ m @ rest) = None)"
      by simp
    then show ?thesis by blast
  qed
qed

lemma search_constructor_complete:
  "match_constructor_at (t @ rest) \<noteq> None \<Longrightarrow> search_constructor (pre @ t @ rest) \<noteq> None"
proof (induction pre)
  case Nil
  show ?case
  proof (cases "t @ rest")
    case Nil
    with Nil.prems show ?thesis by (simp add: match_constructor_at_def)
  next
    case (Cons a x)
    with Nil.prems obtain m where "match_constructor_at (a # x) = Some m" by auto
    with Cons show ?thesis by simp
  qed
next
  case (Cons c pre)
  then show ?case by (auto split: option.splits)
qed

lemma has_constructor_iff: "has_constructor s \<longleftrightarrow> search_constructor s \<noteq> None"
proof
  assume "has_constructor s"
  then obtain pre m rest where "s = pre @ m @ rest" "constructor_prolog m"
    unfolding has_constructor_def by blast
  then show "search_constructor s \<noteq> None"
    using prolog_matches search_constructor_complete by simp
next
  assume "search_constructor s \<noteq> None"
  then obtain m where m: "search_constructor s = Some m" by auto
  from search_constructor_Some[OF this] obtain pre rest where
    s: "s = pre @ m @ rest" and mt: "match_constructor_at (m @ rest) = Some m" by blast
  from match_constructor_atD[OF mt] have "constructor_prolog m"
    unfolding constructor_prolog_def by blast
  with s show "has_constructor s" unfolding has_constructor_def by blast
qed

lemma replace_first_prefix: "replace_first old new (old @ rest) = new @ rest"
proof (cases "old @ rest")
  case Nil
  then show ?thesis by simp
next
  case (Cons c x)
  have "prefix old (old @ rest)" by simp
  then have "replace_first old new (c # x) = new @ drop (length old) (c # x)"
    unfolding Cons by simp
  also have "drop (length old) (c # x) = rest" unfolding Cons[symmetric] by simp
  finally show ?thesis unfolding Cons .
qed

lemma replace_first_at:
  "old \<noteq> [] \<Longrightarrow> (\<forall>u v. pre = u @ v \<and> v \<noteq> [] \<longrightarrow> \<not> prefix old (v @ old @ rest)) \<Longrightarrow>
   replace_first old new (pre @ old @ rest) = pre @ new @ rest"
proof (induction pre)
  case Nil
  show ?case by (simp add: replace_first_prefix)
next
  case (Cons c pre)
  from Cons.prems(2) have "\<not> prefix old ((c # pre) @ old @ rest)" by blast
  moreover have "\<forall>u v. pre = u @ v \<and> v \<noteq> [] \<longrightarrow> \<not> prefix old (v @ old @ rest)"
  proof (intro allI impI)
    fix u v assume "pre = u @ v \<and> v \<noteq> []"
    then have "c # pre = (c # u) @ v \<and> v \<noteq> []" by simp
    with Cons.prems(2) show "\<not> prefix old (v @ old @ rest)" by blast
  qed
  ultimately show ?case using Cons.IH[OF Cons.prems(1)] by simp
qed

lemma replace_first_sublist:
  "sublist old s \<Longrightarrow> \<exists>pre rest. s = pre @ old @ rest \<and> replace_first old new s = pre @ new @ rest"
proof (induction s)
  case Nil
  then show ?case by simp
next
  case (Cons c s)
  show ?case
  proof (cases "prefix old (c # s)")
    case True
    then obtain rest where r: "c # s = old @ rest" by (auto simp: prefix_def)
    have "c # s = [] @ old @ rest \<and> replace_first old new (c # s) = [] @ new @ rest"
      unfolding r by (simp add: replace_first_prefix)
    then show ?thesis by blast
  next
    case False
    with Cons.prems have "sublist old s" by (cases old) (auto simp: sublist_Cons_right)
    from Cons.IH[OF this] obtain pre rest where
      "s = pre @ old @ rest" "replace_first old new s = pre @ new @ rest" by blast
    with False have "c # s = (c # pre) @ old @ rest
      \<and> replace_first old new (c # s) = (c # pre) @ new @ rest" by simp
    then show ?thesis by blast
  qed
qed

lemma prolog_not_Nil: "constructor_prolog m \<Longrightarrow> m \<noteq> []"
  by (auto simp: constructor_prolog_def)

lemma add_debug_instance_found:
  assumes "\<not> sublist ''this.debug = DebugLogger.create'' content"
    and "search_constructor content = Some m"
  shows "\<exists>pre rest. content = pre @ m @ rest
          \<and> match_constructor_at (m @ rest) = Some m
          \<and> add_debug_instance class_name content = pre @ m @ debug_line class_name @ rest"
proof -
  from search_constructor_Some[OF assms(2)] obtain pre rest where
    c: "content = pre @ m @ rest" and mt: "match_constructor_at (m @ rest) = Some m"
    and left: "\<forall>u v. pre = u @ v \<and> v \<noteq> [] \<longrightarrow> match_constructor_at (v @ m @ rest) = None"
    by blast
  from match_constructor_atD[OF mt] have pm: "constructor_prolog m"
    unfolding constructor_prolog_def by blast
  have "\<forall>u v. pre = u @ v \<and> v \<noteq> [] \<longrightarrow> \<not> prefix m (v @ m @ rest)"
  proof (intro allI impI notI)
    fix u v assume a: "pre = u @ v \<and> v \<noteq> []" and "prefix m (v @ m @ rest)"
    then obtain r where r: "v @ m @ rest = m @ r" by (auto simp: prefix_def)
    from left a have "match_constructor_at (v @ m @ rest) = None" by blast
    with prolog_matches[OF pm, of r] show False unfolding r by simp
  qed
  with prolog_not_Nil[OF pm]
  have "replace_first m (m @ debug_line class_name) (pre @ m @ rest)
      = pre @ (m @ debug_line class_name) @ rest"
    by (intro replace_first_at) auto
  with assms c mt have "content = pre @ m @ rest \<and> match_constructor_at (m @ rest) = Some m
     \<and> add_debug_instance class_name content = pre @ m @ debug_line class_name @ rest"
    unfolding add_debug_instance_def by simp
  then show ?thesis by blast
qed

lemma add_debug_instance_none:
  "search_constructor content = None \<Longrightarrow> add_debug_instance class_name content = content"
  by (simp add: add_debug_instance_def)

lemma add_debug_instance_present:
  "sublist ''this.debug = DebugLogger.create'' content \<Longrightarrow>
   add_debug_instance class_name content = content"
  by (simp add: add_debug_instance_def)

text \<open>
  Claim C6, as amended. The span found by the constructor pattern is the header
  \<open>constructor(\<close>, parameters without \<open>)\<close>, \<open>)\<close>, white space, \<open>{\<close>, then a body without
  \<open>}\<close> that ends with \<open>super();\<close>. The body is bounded by the first \<open>}\<close>, but within that
  bound the class \<open>[^}]*\<close> is greedy: no further \<open>super();\<close> starts after the span and
  before the first \<open>}\<close>, so the span ends at the last such call, not at the first.
\<close>

theorem constructor_span_last_super:
  assumes "search_constructor content = Some m"
  shows "\<exists>pre params ws body rest.
           content = pre @ m @ rest
         \<and> m = ''constructor('' @ params @ '')'' @ ws @ ''{'' @ body @ ''super();''
         \<and> CHR '')'' \<notin> set params \<and> list_all is_space ws \<and> CHR ''}'' \<notin> set body
         \<and> \<not> sublist ''super();'' (''uper();'' @ takeWhile (\<lambda>c. c \<noteq> CHR ''}'') rest)"
proof -
  from search_constructor_Some[OF assms] obtain pre rest where
    c: "content = pre @ m @ rest" and mt: "match_constructor_at (m @ rest) = Some m" by blast
  from match_constructor_atD[OF mt] obtain params ws body rest' where
    r: "m @ rest = m @ rest'"
    and m: "m = ''constructor('' @ params @ '')'' @ ws @ ''{'' @ body @ ''super();''"
      "CHR '')'' \<notin> set params" "list_all is_space ws" "CHR ''}'' \<notin> set body"
      "\<not> sublist ''super();'' (''uper();'' @ takeWhile (\<lambda>c. c \<noteq> CHR ''}'') rest')"
    by blast
  from r have "rest' = rest" by simp
  with c m show ?thesis by blast
qed

theorem constructor_span_last_super_witness:
  "search_constructor ''class A { constructor(x) { super(); a(); super(); b(); } }''
     = Some ''constructor(x) { super(); a(); super();''
   \<and> (\<exists>pre params ws body rest.
         ''class A { constructor(x) { super(); a(); super(); b(); } }''
           = pre @ ''constructor(x) { super(); a(); super();'' @ rest
       \<and> ''constructor(x) { super(); a(); super();''
           = ''constructor('' @ params @ '')'' @ ws @ ''{'' @ body @ ''super();''
       \<and> CHR '')'' \<notin> set params \<and> list_all is_space ws \<and> CHR ''}'' \<notin> set body
       \<and> \<not> sublist ''super();'' (''uper();'' @ takeWhile (\<lambda>c. c \<noteq> CHR ''}'') rest))"
proof -
  have h: "search_constructor ''class A { constructor(x) { super(); a(); super(); b(); } }''
     = Some ''constructor(x) { super(); a(); super();''"
    by (simp add: match_constructor_at_def is_space_def)
  from h constructor_span_last_super[OF h] show ?thesis by blast
qed

text \<open>
  With two \<open>super();\<close> calls before the first \<open>}\<close> the span reaches the second one.
\<close>

theorem constructor_span_counterexample:
  "search_constructor ''constructor(x) { super(); a(); super(); }''
     = Some ''constructor(x) { super(); a(); super();''
   \<and> search_constructor ''constructor(x) { super(); a(); super(); }''
     \<noteq> Some ''constructor(x) { super();''"
  by (simp add: match_constructor_at_def is_space_def)

subsection \<open>Insertions and the constructor pattern\<close>

lemma has_constructor_header:
  "has_constructor s \<longleftrightarrow> (\<exists>pre r. s = pre @ ''constructor('' @ r \<and> after_header r)"
proof
  assume "has_constructor s"
  then obtain pre m rest params ws body where
    s: "s = pre @ m @ rest"
    and m: "m = ''constructor('' @ params @ '')'' @ ws @ ''{'' @ body @ ''super();''"
    and c: "CHR '')'' \<notin> set params" "list_all is_space ws" "CHR ''}'' \<notin> set body"
    unfolding has_constructor_def constructor_prolog_def by blast
  have "after_brace (body @ ''super();'' @ rest)"
    unfolding after_brace_def using c(3) by blast
  then have "after_params (ws @ ''{'' @ body @ ''super();'' @ rest)"
    unfolding after_params_def using c(2) by blast
  then have "after_header (params @ '')'' @ ws @ ''{'' @ body @ ''super();'' @ rest)"
    unfolding after_header_def using c(1) by blast
  moreover have "s = pre @ ''constructor('' @ params @ '')'' @ ws @ ''{'' @ body @ ''super();'' @ rest"
    unfolding s m by simp
  ultimately show "\<exists>pre r. s = pre @ ''constructor('' @ r \<and> after_header r" by blast
next
  assume "\<exists>pre r. s = pre @ ''constructor('' @ r \<and> after_header r"
  then obtain pre params ws body rest where
    s: "s = pre @ ''constructor('' @ params @ '')'' @ ws @ ''{'' @ body @ ''super();'' @ rest"
    and c: "CHR '')'' \<notin> set params" "list_all is_space ws" "CHR ''}'' \<notin> set body"
    unfolding after_header_def after_params_def after_brace_def by blast
  let ?m = "''constructor('' @ params @ '')'' @ ws @ ''{'' @ body @ ''super();''"
  have "constructor_prolog ?m" unfolding constructor_prolog_def using c by blast
  moreover have "s = pre @ ?m @ rest" unfolding s by simp
  ultimately show "has_constructor s" unfolding has_constructor_def by blast
qed

text \<open>Where an inserted text lies, relative to a literal it cannot overlap.\<close>

lemma split_mid:
  assumes "x @ L @ r = u @ ins @ v" "apart L ins"
  shows "(\<exists>x'. x = u @ ins @ x' \<and> v = x' @ L @ r) \<or> (\<exists>u'. u = x @ L @ u' \<and> r = u' @ ins @ v)"
proof -
  from assms(2) have a: "tails_clear L ins" "tails_clear ins L" by (auto simp: apart_def)
  from assms(1) obtain t where t: "(x = u @ t \<and> t @ L @ r = ins @ v) \<or> (x @ t = u \<and> L @ r = t @ ins @ v)"
    unfolding append_eq_append_conv2 by blast
  then show ?thesis
  proof
    assume h: "x = u @ t \<and> t @ L @ r = ins @ v"
    then obtain t' where t': "(t = ins @ t' \<and> t' @ L @ r = v) \<or> (t @ t' = ins \<and> L @ r = t' @ v)"
      unfolding append_eq_append_conv2 by blast
    then show ?thesis
    proof
      assume "t = ins @ t' \<and> t' @ L @ r = v"
      with h have "x = u @ ins @ t' \<and> v = t' @ L @ r" by simp
      then show ?thesis by blast
    next
      assume h2: "t @ t' = ins \<and> L @ r = t' @ v"
      show ?thesis
      proof (cases "t' = []")
        case True
        with h2 h have "x = u @ ins @ [] \<and> v = [] @ L @ r" by simp
        then show ?thesis by blast
      next
        case False
        from h2 have "suffix t' ins" by (auto simp: suffix_def)
        with a(2) False have "t' \<parallel> L" by (auto dest: tails_clearD)
        with h2 show ?thesis using not_parallel_common[of t' v L r] by simp
      qed
    qed
  next
    assume h: "x @ t = u \<and> L @ r = t @ ins @ v"
    then obtain t' where t': "(L = t @ t' \<and> t' @ r = ins @ v) \<or> (L @ t' = t \<and> r = t' @ ins @ v)"
      unfolding append_eq_append_conv2 by blast
    then show ?thesis
    proof
      assume h2: "L = t @ t' \<and> t' @ r = ins @ v"
      show ?thesis
      proof (cases "t' = []")
        case True
        with h2 h have "u = x @ L @ [] \<and> r = [] @ ins @ v" by simp
        then show ?thesis by blast
      next
        case False
        from h2 have "suffix t' L" by (auto simp: suffix_def)
        with a(1) False have "t' \<parallel> ins" by (auto dest: tails_clearD)
        with h2 show ?thesis using not_parallel_common[of t' r ins v] by simp
      qed
    next
      assume "L @ t' = t \<and> r = t' @ ins @ v"
      with h have "u = x @ L @ t' \<and> r = t' @ ins @ v" by auto
      then show ?thesis by blast
    qed
  qed
qed

lemma apart_single: "c \<notin> set ins \<Longrightarrow> ins \<noteq> [] \<Longrightarrow> apart [c] ins"
  unfolding apart_def
  by (cases ins) (auto intro: tails_clear_hd Cons_parallelI1)

text \<open>Taking an inserted text out again.\<close>

lemma after_brace_remove:
  assumes "after_brace (u @ ins @ v)" "insertable ins"
  shows "after_brace (u @ v)"
proof -
  from assms(1) obtain body rest where
    e: "body @ ''super();'' @ rest = u @ ins @ v" and b: "CHR ''}'' \<notin> set body"
    unfolding after_brace_def by metis
  from assms(2) have "apart ''super();'' ins" by (simp add: insertable_def)
  from split_mid[OF e this] show ?thesis
  proof
    assume "\<exists>x'. body = u @ ins @ x' \<and> v = x' @ ''super();'' @ rest"
    then obtain x' where x: "body = u @ ins @ x'" "v = x' @ ''super();'' @ rest" by blast
    with b have "u @ v = (u @ x') @ ''super();'' @ rest \<and> CHR ''}'' \<notin> set (u @ x')" by simp
    then show ?thesis unfolding after_brace_def by blast
  next
    assume "\<exists>u'. u = body @ ''super();'' @ u' \<and> rest = u' @ ins @ v"
    then obtain u' where "u = body @ ''super();'' @ u'" by blast
    with b have "u @ v = body @ ''super();'' @ (u' @ v) \<and> CHR ''}'' \<notin> set body" by simp
    then show ?thesis unfolding after_brace_def by blast
  qed
qed

lemma after_params_remove:
  assumes "after_params (u @ ins @ v)" "insertable ins"
  shows "after_params (u @ v)"
proof -
  from assms(1) obtain ws r3 where
    e: "ws @ ''{'' @ r3 = u @ ins @ v" and w: "list_all is_space ws" and r3: "after_brace r3"
    unfolding after_params_def by metis
  from assms(2) have ns: "\<not> list_all is_space ins" and "CHR ''{'' \<notin> set ins"
    by (simp_all add: insertable_def)
  then have "apart ''{'' ins" by (intro apart_single) auto
  from split_mid[OF e this] show ?thesis
  proof
    assume "\<exists>x'. ws = u @ ins @ x' \<and> v = x' @ ''{'' @ r3"
    with w ns show ?thesis by auto
  next
    assume "\<exists>u'. u = ws @ ''{'' @ u' \<and> r3 = u' @ ins @ v"
    then obtain u' where u: "u = ws @ ''{'' @ u'" "r3 = u' @ ins @ v" by blast
    with r3 assms(2) have "after_brace (u' @ v)" by (auto intro: after_brace_remove)
    with u w have "u @ v = ws @ ''{'' @ (u' @ v) \<and> list_all is_space ws \<and> after_brace (u' @ v)"
      by simp
    then show ?thesis unfolding after_params_def by blast
  qed
qed

lemma after_header_remove:
  assumes "after_header (u @ ins @ v)" "insertable ins"
  shows "after_header (u @ v)"
proof -
  from assms(1) obtain params r2 where
    e: "params @ '')'' @ r2 = u @ ins @ v" and p: "CHR '')'' \<notin> set params"
    and r2: "after_params r2"
    unfolding after_header_def by metis
  from assms(2) have "\<not> list_all is_space ins" and "CHR '')'' \<notin> set ins"
    by (simp_all add: insertable_def)
  then have "apart '')'' ins" by (intro apart_single) auto
  from split_mid[OF e this] show ?thesis
  proof
    assume "\<exists>x'. params = u @ ins @ x' \<and> v = x' @ '')'' @ r2"
    then obtain x' where x: "params = u @ ins @ x'" "v = x' @ '')'' @ r2" by blast
    with p r2 have "u @ v = (u @ x') @ '')'' @ r2 \<and> CHR '')'' \<notin> set (u @ x') \<and> after_params r2"
      by simp
    then show ?thesis unfolding after_header_def by blast
  next
    assume "\<exists>u'. u = params @ '')'' @ u' \<and> r2 = u' @ ins @ v"
    then obtain u' where u: "u = params @ '')'' @ u'" "r2 = u' @ ins @ v" by blast
    with r2 assms(2) have "after_params (u' @ v)" by (auto intro: after_params_remove)
    with u p have "u @ v = params @ '')'' @ (u' @ v) \<and> CHR '')'' \<notin> set params
        \<and> after_params (u' @ v)" by simp
    then show ?thesis unfolding after_header_def by blast
  qed
qed

lemma has_constructor_remove:
  assumes "has_constructor (u @ ins @ v)" "insertable ins"
  shows "has_constructor (u @ v)"
proof -
  from assms(1) obtain pre r where
    e: "pre @ ''constructor('' @ r = u @ ins @ v" and r: "after_header r"
    unfolding has_constructor_header by metis
  from assms(2) have "apart ''constructor('' ins" by (simp add: insertable_def)
  from split_mid[OF e this] show ?thesis
  proof
    assume "\<exists>x'. pre = u @ ins @ x' \<and> v = x' @ ''constructor('' @ r"
    then obtain x' where "v = x' @ ''constructor('' @ r" by blast
    with r have "u @ v = (u @ x') @ ''constructor('' @ r \<and> after_header r" by simp
    then show ?thesis unfolding has_constructor_header by blast
  next
    assume "\<exists>u'. u = pre @ ''constructor('' @ u' \<and> r = u' @ ins @ v"
    then obtain u' where u: "u = pre @ ''constructor('' @ u'" "r = u' @ ins @ v" by blast
    with r assms(2) have "after_header (u' @ v)" by (auto intro: after_header_remove)
    with u have "u @ v = pre @ ''constructor('' @ (u' @ v) \<and> after_header (u' @ v)" by simp
    then show ?thesis unfolding has_constructor_header by blast
  qed
qed

text \<open>Inserting a text behind a semicolon.\<close>

lemma semicolon_facts:
  "apart ''super()'' '';''" "apart ''{'' '';''" "apart '')'' '';''" "apart ''constructor('' '';''"
  "\<not> is_space CHR '';''"
  by (simp_all add: apart_def parallel_def is_space_def)

lemma after_brace_insert:
  assumes "after_brace (u @ '';'' @ v)" "CHR ''}'' \<notin> set ins"
  shows "after_brace (u @ '';'' @ ins @ v)"
proof -
  from assms(1) obtain body rest where
    e0: "u @ '';'' @ v = body @ ''super();'' @ rest" and b: "CHR ''}'' \<notin> set body"
    unfolding after_brace_def by blast
  then have e: "body @ ''super()'' @ ('';'' @ rest) = u @ '';'' @ v" by simp
  from split_mid[OF e semicolon_facts(1)] show ?thesis
  proof
    assume "\<exists>x'. body = u @ '';'' @ x' \<and> v = x' @ ''super()'' @ '';'' @ rest"
    then obtain x' where x: "body = u @ '';'' @ x'" "v = x' @ ''super()'' @ '';'' @ rest" by blast
    with b assms(2) have "u @ '';'' @ ins @ v = (u @ '';'' @ ins @ x') @ ''super();'' @ rest
        \<and> CHR ''}'' \<notin> set (u @ '';'' @ ins @ x')" by simp
    then show ?thesis unfolding after_brace_def by blast
  next
    assume "\<exists>u'. u = body @ ''super()'' @ u' \<and> '';'' @ rest = u' @ '';'' @ v"
    then obtain u' where u: "u = body @ ''super()'' @ u'" "'';'' @ rest = u' @ '';'' @ v" by blast
    show ?thesis
    proof (cases u')
      case Nil
      with u b have "u @ '';'' @ ins @ v = body @ ''super();'' @ (ins @ v)
          \<and> CHR ''}'' \<notin> set body" by simp
      then show ?thesis unfolding after_brace_def by blast
    next
      case (Cons d u'')
      with u have "rest = u'' @ '';'' @ v" "d = CHR '';''" by simp_all
      with u b Cons have "u @ '';'' @ ins @ v = body @ ''super();'' @ (u'' @ '';'' @ ins @ v)
          \<and> CHR ''}'' \<notin> set body" by simp
      then show ?thesis unfolding after_brace_def by blast
    qed
  qed
qed

lemma after_params_insert:
  assumes "after_params (u @ '';'' @ v)" "CHR ''}'' \<notin> set ins"
  shows "after_params (u @ '';'' @ ins @ v)"
proof -
  from assms(1) obtain ws r3 where
    e: "ws @ ''{'' @ r3 = u @ '';'' @ v" and w: "list_all is_space ws" and r3: "after_brace r3"
    unfolding after_params_def by metis
  from split_mid[OF e semicolon_facts(2)] show ?thesis
  proof
    assume "\<exists>x'. ws = u @ '';'' @ x' \<and> v = x' @ ''{'' @ r3"
    with w semicolon_facts(5) show ?thesis by auto
  next
    assume "\<exists>u'. u = ws @ ''{'' @ u' \<and> r3 = u' @ '';'' @ v"
    then obtain u' where u: "u = ws @ ''{'' @ u'" "r3 = u' @ '';'' @ v" by blast
    from r3 have "after_brace (u' @ '';'' @ v)" unfolding u(2) .
    then have "after_brace (u' @ '';'' @ ins @ v)" using assms(2) by (rule after_brace_insert)
    with u w have "u @ '';'' @ ins @ v = ws @ ''{'' @ (u' @ '';'' @ ins @ v)
        \<and> list_all is_space ws \<and> after_brace (u' @ '';'' @ ins @ v)" by simp
    then show ?thesis unfolding after_params_def by blast
  qed
qed

lemma after_header_insert:
  assumes "after_header (u @ '';'' @ v)" "CHR ''}'' \<notin> set ins" "CHR '')'' \<notin> set ins"
  shows "after_header (u @ '';'' @ ins @ v)"
proof -
  from assms(1) obtain params r2 where
    e: "params @ '')'' @ r2 = u @ '';'' @ v" and p: "CHR '')'' \<notin> set params"
    and r2: "after_params r2"
    unfolding after_header_def by metis
  from split_mid[OF e semicolon_facts(3)] show ?thesis
  proof
    assume "\<exists>x'. params = u @ '';'' @ x' \<and> v = x' @ '')'' @ r2"
    then obtain x' where x: "params = u @ '';'' @ x'" "v = x' @ '')'' @ r2" by blast
    with p r2 assms(3) have "u @ '';'' @ ins @ v = (u @ '';'' @ ins @ x') @ '')'' @ r2
        \<and> CHR '')'' \<notin> set (u @ '';'' @ ins @ x') \<and> after_params r2" by simp
    then show ?thesis unfolding after_header_def by blast
  next
    assume "\<exists>u'. u = params @ '')'' @ u' \<and> r2 = u' @ '';'' @ v"
    then obtain u' where u: "u = params @ '')'' @ u'" "r2 = u' @ '';'' @ v" by blast
    from r2 have "after_params (u' @ '';'' @ v)" unfolding u(2) .
    then have "after_params (u' @ '';'' @ ins @ v)" using assms(2) by (rule after_params_insert)
    with u p have "u @ '';'' @ ins @ v = params @ '')'' @ (u' @ '';'' @ ins @ v)
        \<and> CHR '')'' \<notin> set params \<and> after_params (u' @ '';'' @ ins @ v)" by simp
    then show ?thesis unfolding after_header_def by blast
  qed
qed

lemma has_constructor_insert:
  assumes "has_constructor (u @ '';'' @ v)" "CHR ''}'' \<notin> set ins" "CHR '')'' \<notin> set ins"
  shows "has_constructor (u @ '';'' @ ins @ v)"
proof -
  from assms(1) obtain pre r where
    e: "pre @ ''constructor('' @ r = u @ '';'' @ v" and r: "after_header r"
    unfolding has_constructor_header by metis
  from split_mid[OF e semicolon_facts(4)] show ?thesis
  proof
    assume "\<exists>x'. pre = u @ '';'' @ x' \<and> v = x' @ ''constructor('' @ r"
    then obtain x' where "v = x' @ ''constructor('' @ r" by blast
    with r have "u @ '';'' @ ins @ v = (u @ '';'' @ ins @ x') @ ''constructor('' @ r
        \<and> after_header r" by simp
    then show ?thesis unfolding has_constructor_header by blast
  next
    assume "\<exists>u'. u = pre @ ''constructor('' @ u' \<and> r = u' @ '';'' @ v"
    then obtain u' where u: "u = pre @ ''constructor('' @ u'" "r = u' @ '';'' @ v" by blast
    from r have "after_header (u' @ '';'' @ v)" unfolding u(2) .
    then have "after_header (u' @ '';'' @ ins @ v)" using assms(2,3) by (rule after_header_insert)
    with u have "u @ '';'' @ ins @ v = pre @ ''constructor('' @ (u' @ '';'' @ ins @ v)
        \<and> after_header (u' @ '';'' @ ins @ v)" by simp
    then show ?thesis unfolding has_constructor_header by blast
  qed
qed

lemma has_constructor_prepend: "has_constructor s \<Longrightarrow> has_constructor (t @ s)"
proof -
  assume "has_constructor s"
  then obtain pre m rest where "s = pre @ m @ rest" "constructor_prolog m"
    unfolding has_constructor_def by blast
  then have "t @ s = (t @ pre) @ m @ rest \<and> constructor_prolog m" by simp
  then show ?thesis unfolding has_constructor_def by blast
qed

subsection \<open>The import pattern and the import line\<close>

lemma match_import_atD:
  assumes "match_import_at s = Some m"
  shows "\<exists>body rest. s = m @ rest \<and> m = ''import'' @ body @ '';'' \<and> body \<noteq> []
           \<and> CHR '';'' \<notin> set body"
proof -
  from assms have p: "prefix ''import'' s"
    unfolding match_import_at_def by (simp split: if_splits)
  define s1 where "s1 = drop 6 s"
  from p have s: "s = ''import'' @ s1" unfolding s1_def by (auto simp: prefix_def)
  define body where "body = takeWhile (\<lambda>c. c \<noteq> CHR '';'') s1"
  define r0 where "r0 = dropWhile (\<lambda>c. c \<noteq> CHR '';'') s1"
  have s1: "s1 = body @ r0" unfolding body_def r0_def by simp
  from assms p have bn: "body \<noteq> []" and rn: "r0 \<noteq> []" and m: "m = ''import'' @ body @ '';''"
    unfolding match_import_at_def body_def r0_def s1_def
    by (simp_all add: Let_def split: if_splits)
  from rn obtain d rest where r0: "r0 = d # rest" by (cases r0) auto
  then have "d = CHR '';''" unfolding r0_def using dropWhile_Cons_hd by fastforce
  with s s1 r0 m have "s = m @ rest" by simp
  moreover have "CHR '';'' \<notin> set body" unfolding body_def by (auto dest: set_takeWhileD)
  ultimately show ?thesis using m bn by blast
qed

lemma match_import_atI:
  assumes "body \<noteq> []" "CHR '';'' \<notin> set body"
  shows "match_import_at (''import'' @ body @ '';'' @ rest) = Some (''import'' @ body @ '';'')"
proof -
  let ?s = "''import'' @ body @ '';'' @ rest"
  have d6: "drop 6 ?s = body @ CHR '';'' # rest" by simp
  have t: "takeWhile (\<lambda>c. c \<noteq> CHR '';'') (drop 6 ?s) = body"
    unfolding d6 using assms(2) by (intro takeWhile_run) auto
  have d: "dropWhile (\<lambda>c. c \<noteq> CHR '';'') (drop 6 ?s) = CHR '';'' # rest"
    unfolding d6 using assms(2) by (intro dropWhile_run) auto
  have "prefix ''import'' ?s" by simp
  then show ?thesis
    unfolding match_import_at_def Let_def t d using assms(1) by simp
qed

lemma findall_import_Cons:
  "findall_import s = m # ms \<Longrightarrow>
   \<exists>pre rest. s = pre @ m @ rest \<and> match_import_at (m @ rest) = Some m
      \<and> (\<forall>u v. pre = u @ v \<and> v \<noteq> [] \<longrightarrow> match_import_at (v @ m @ rest) = None)
      \<and> findall_import rest = ms"
proof (induction s rule: findall_import.induct)
  case 1
  then show ?case by simp
next
  case (2 c s)
  show ?case
  proof (cases "match_import_at (c # s)")
    case (Some m')
    from match_import_atD[OF Some] obtain rest where r: "c # s = m' @ rest" by blast
    then have dr: "drop (length m') (c # s) = rest" by simp
    from "2.prems" Some dr have mm: "m' = m" and ms: "findall_import rest = ms" by simp_all
    from Some r mm ms have "c # s = [] @ m @ rest \<and> match_import_at (m @ rest) = Some m
      \<and> (\<forall>u v. [] = u @ v \<and> v \<noteq> [] \<longrightarrow> match_import_at (v @ m @ rest) = None)
      \<and> findall_import rest = ms" by simp
    then show ?thesis by blast
  next
    case None
    with "2.prems" have "findall_import s = m # ms" by simp
    from "2.IH"(1)[OF None this] obtain pre rest where
      s: "s = pre @ m @ rest" and mt: "match_import_at (m @ rest) = Some m"
      and left: "\<forall>u v. pre = u @ v \<and> v \<noteq> [] \<longrightarrow> match_import_at (v @ m @ rest) = None"
      and ms: "findall_import rest = ms"
      by blast
    have "\<forall>u v. c # pre = u @ v \<and> v \<noteq> [] \<longrightarrow> match_import_at (v @ m @ rest) = None"
    proof (intro allI impI)
      fix u v assume a: "c # pre = u @ v \<and> v \<noteq> []"
      show "match_import_at (v @ m @ rest) = None"
      proof (cases u)
        case Nil
        with a have "v = c # pre" by simp
        with None s show ?thesis by simp
      next
        case (Cons d u')
        with a left show ?thesis by simp
      qed
    qed
    with s mt ms have "c # s = (c # pre) @ m @ rest \<and> match_import_at (m @ rest) = Some m
      \<and> (\<forall>u v. c # pre = u @ v \<and> v \<noteq> [] \<longrightarrow> match_import_at (v @ m @ rest) = None)
      \<and> findall_import rest = ms"
      by simp
    then show ?thesis by blast
  qed
qed

lemma findall_import_member:
  "m \<in> set (findall_import s) \<Longrightarrow>
   \<exists>pre body rest. s = pre @ m @ rest \<and> m = ''import'' @ body @ '';''"
proof (induction s rule: findall_import.induct)
  case 1
  then show ?case by simp
next
  case (2 c s)
  show ?case
  proof (cases "match_import_at (c # s)")
    case None
    with "2.prems" have "m \<in> set (findall_import s)" by simp
    from "2.IH"(1)[OF None this] obtain pre body rest where
      "s = pre @ m @ rest" "m = ''import'' @ body @ '';''" by blast
    then have "c # s = (c # pre) @ m @ rest \<and> m = ''import'' @ body @ '';''" by simp
    then show ?thesis by blast
  next
    case (Some m')
    from match_import_atD[OF Some] obtain body rest where
      r: "c # s = m' @ rest" and m': "m' = ''import'' @ body @ '';''" by blast
    from r have dr: "drop (length m') (c # s) = rest" by simp
    from "2.prems" Some dr have "m = m' \<or> m \<in> set (findall_import rest)" by auto
    then show ?thesis
    proof
      assume "m = m'"
      with r m' have "c # s = [] @ m @ rest \<and> m = ''import'' @ body @ '';''" by simp
      then show ?thesis by blast
    next
      assume "m \<in> set (findall_import rest)"
      with "2.IH"(2)[OF Some] dr obtain pre b r' where
        "rest = pre @ m @ r'" "m = ''import'' @ b @ '';''" by auto
      with r have "c # s = (m' @ pre) @ m @ r' \<and> m = ''import'' @ b @ '';''" by simp
      then show ?thesis by blast
    qed
  qed
qed

lemma add_import_shape:
  "sublist ''import DebugLogger'' content \<and> add_import content = content
   \<or> \<not> sublist ''import DebugLogger'' content \<and> findall_import content = []
       \<and> add_import content = import_line @ ''\<newline>'' @ content
   \<or> \<not> sublist ''import DebugLogger'' content \<and> findall_import content \<noteq> []
       \<and> (\<exists>pre rest. content = pre @ '';'' @ rest
            \<and> add_import content = pre @ '';'' @ (''\<newline>'' @ import_line) @ rest)"
proof (cases "sublist ''import DebugLogger'' content")
  case True
  then show ?thesis by (simp add: add_import_def)
next
  case nm: False
  show ?thesis
  proof (cases "findall_import content = []")
    case True
    with nm show ?thesis by (simp add: add_import_def)
  next
    case False
    define m where "m = last (findall_import content)"
    from False have "m \<in> set (findall_import content)" unfolding m_def by simp
    from findall_import_member[OF this] obtain pre0 body rest0 where
      c0: "content = pre0 @ m @ rest0" and mb: "m = ''import'' @ body @ '';''" by blast
    then have "sublist m content" by (auto simp: sublist_def)
    from replace_first_sublist[OF this, of "m @ ''\<newline>'' @ import_line"] obtain pre rest where
      c: "content = pre @ m @ rest"
      and r: "replace_first m (m @ ''\<newline>'' @ import_line) content
              = pre @ (m @ ''\<newline>'' @ import_line) @ rest" by blast
    from nm False r have "add_import content = pre @ (m @ ''\<newline>'' @ import_line) @ rest"
      unfolding add_import_def m_def by (simp add: Let_def)
    with c mb have "content = (pre @ ''import'' @ body) @ '';'' @ rest
      \<and> add_import content = (pre @ ''import'' @ body) @ '';'' @ (''\<newline>'' @ import_line) @ rest"
      by simp
    then have "\<exists>pre rest. content = pre @ '';'' @ rest
        \<and> add_import content = pre @ '';'' @ (''\<newline>'' @ import_line) @ rest" by blast
    with nm False show ?thesis by blast
  qed
qed

lemma import_line_insertable:
  "insertable (''\<newline>'' @ import_line)" "insertable (import_line @ ''\<newline>'')"
  by (simp_all add: insertable_def import_line_def apart_def parallel_def is_space_def)

lemma import_line_chars:
  "CHR ''}'' \<notin> set (''\<newline>'' @ import_line)" "CHR '')'' \<notin> set (''\<newline>'' @ import_line)"
  by (simp_all add: import_line_def)

lemma has_constructor_add_import: "has_constructor (add_import content) \<longleftrightarrow> has_constructor content"
proof -
  consider
    (same) "add_import content = content"
    | (top) "add_import content = import_line @ ''\<newline>'' @ content"
    | (after) pre rest where "content = pre @ '';'' @ rest"
        "add_import content = pre @ '';'' @ (''\<newline>'' @ import_line) @ rest"
    using add_import_shape[of content] by blast
  then show ?thesis
  proof cases
    case same
    then show ?thesis by simp
  next
    case top
    have "has_constructor ([] @ (import_line @ ''\<newline>'') @ content) \<Longrightarrow> has_constructor ([] @ content)"
      by (rule has_constructor_remove[OF _ import_line_insertable(2)])
    moreover have "has_constructor content \<Longrightarrow> has_constructor ((import_line @ ''\<newline>'') @ content)"
      by (rule has_constructor_prepend)
    ultimately show ?thesis unfolding top by auto
  next
    case after
    have "has_constructor (pre @ '';'' @ (''\<newline>'' @ import_line) @ rest)
        \<Longrightarrow> has_constructor (pre @ '';'' @ rest)"
      using has_constructor_remove[of "pre @ '';''" "''\<newline>'' @ import_line" rest]
        import_line_insertable(1) by simp
    moreover have "has_constructor (pre @ '';'' @ rest)
        \<Longrightarrow> has_constructor (pre @ '';'' @ (''\<newline>'' @ import_line) @ rest)"
      by (rule has_constructor_insert[OF _ import_line_chars])
    moreover have "has_constructor (add_import content)
        \<longleftrightarrow> has_constructor (pre @ '';'' @ (''\<newline>'' @ import_line) @ rest)"
      by (simp only: after(2))
    moreover have "has_constructor content \<longleftrightarrow> has_constructor (pre @ '';'' @ rest)"
      by (simp only: after(1))
    ultimately show ?thesis by blast
  qed
qed


subsection \<open>Documents without a match of the constructor pattern\<close>

lemma sublist_remove:
  assumes "sublist L (u @ ins @ v)" "apart L ins"
  shows "sublist L (u @ v)"
proof -
  from assms(1) obtain x r where e: "x @ L @ r = u @ ins @ v" unfolding sublist_def by metis
  from split_mid[OF e assms(2)] show ?thesis
  proof
    assume "\<exists>x'. x = u @ ins @ x' \<and> v = x' @ L @ r"
    then obtain x' where "v = x' @ L @ r" by blast
    then have "u @ v = (u @ x') @ L @ r" by simp
    then show ?thesis unfolding sublist_def by blast
  next
    assume "\<exists>u'. u = x @ L @ u' \<and> r = u' @ ins @ v"
    then obtain u' where "u = x @ L @ u'" by blast
    then have "u @ v = x @ L @ (u' @ v)" by simp
    then show ?thesis unfolding sublist_def by blast
  qed
qed

lemma sublist_insert:
  assumes "sublist (L :: string) (u @ [c] @ v)" "c \<notin> set L" "L \<noteq> []"
  shows "sublist L (u @ [c] @ ins @ v)"
proof -
  from assms(1) obtain x r where e: "x @ L @ r = u @ [c] @ v" unfolding sublist_def by metis
  from assms(2,3) have "apart L [c]"
    unfolding apart_def by (cases L) (auto intro: tails_clear_hd Cons_parallelI1)
  from split_mid[OF e this] show ?thesis
  proof
    assume "\<exists>x'. x = u @ [c] @ x' \<and> v = x' @ L @ r"
    then obtain x' where "v = x' @ L @ r" by blast
    then have "u @ [c] @ ins @ v = (u @ [c] @ ins @ x') @ L @ r" by simp
    then show ?thesis unfolding sublist_def by blast
  next
    assume "\<exists>u'. u = x @ L @ u' \<and> r = u' @ [c] @ v"
    then obtain u' where "u = x @ L @ u'" by blast
    then have "u @ [c] @ ins @ v = x @ L @ (u' @ [c] @ ins @ v)" by simp
    then show ?thesis unfolding sublist_def by blast
  qed
qed

lemma sublist_prepend: "sublist L s \<Longrightarrow> sublist L (t @ s)"
proof -
  assume "sublist L s"
  then obtain a b where "s = a @ L @ b" unfolding sublist_def by blast
  then have "t @ s = (t @ a) @ L @ b" by simp
  then show ?thesis unfolding sublist_def by blast
qed

lemma debug_marker_add_import:
  "sublist ''this.debug = DebugLogger.create'' (add_import content)
   \<longleftrightarrow> sublist ''this.debug = DebugLogger.create'' content"
proof -
  let ?M = "''this.debug = DebugLogger.create''"
  have a1: "apart ?M (import_line @ ''\<newline>'')" and a2: "apart ?M (''\<newline>'' @ import_line)"
    by (simp_all add: apart_def parallel_def import_line_def)
  consider
    (same) "add_import content = content"
    | (top) "add_import content = import_line @ ''\<newline>'' @ content"
    | (after) pre rest where "content = pre @ '';'' @ rest"
        "add_import content = pre @ '';'' @ (''\<newline>'' @ import_line) @ rest"
    using add_import_shape[of content] by blast
  then show ?thesis
  proof cases
    case same
    then show ?thesis by simp
  next
    case top
    have "sublist ?M (import_line @ ''\<newline>'' @ content) \<Longrightarrow> sublist ?M content"
      using sublist_remove[of ?M "[]" "import_line @ ''\<newline>''" content] a1 by simp
    moreover have "sublist ?M content \<Longrightarrow> sublist ?M ((import_line @ ''\<newline>'') @ content)"
      by (rule sublist_prepend)
    ultimately show ?thesis unfolding top by simp blast
  next
    case after
    have "sublist ?M (pre @ '';'' @ (''\<newline>'' @ import_line) @ rest)
        \<Longrightarrow> sublist ?M (pre @ '';'' @ rest)"
      using sublist_remove[of ?M "pre @ '';''" "''\<newline>'' @ import_line" rest] a2 by simp
    moreover have "sublist ?M (pre @ '';'' @ rest)
        \<Longrightarrow> sublist ?M (pre @ '';'' @ (''\<newline>'' @ import_line) @ rest)"
      using sublist_insert[where L="?M" and u=pre and c="CHR '';''" and v=rest
          and ins="''\<newline>'' @ import_line"] by simp
    moreover have "sublist ?M (add_import content)
        \<longleftrightarrow> sublist ?M (pre @ '';'' @ (''\<newline>'' @ import_line) @ rest)"
      by (simp only: after(2))
    moreover have "sublist ?M content \<longleftrightarrow> sublist ?M (pre @ '';'' @ rest)"
      by (simp only: after(1))
    ultimately show ?thesis by blast
  qed
qed





subsection \<open>Counting the markers\<close>

lemma occurrences_zero: "occurrences p s = 0 \<longleftrightarrow> \<not> sublist p s"
  by (induction s) (auto simp: sublist_Cons_right)

lemma prefix_before_sep:
  assumes "c \<notin> set p"
  shows "prefix p (u @ c # v) \<longleftrightarrow> prefix p u"
proof
  assume "prefix p (u @ c # v)"
  then have "prefix p u \<or> (\<exists>t. p = u @ t \<and> prefix t (c # v))" by (simp add: prefix_append)
  then show "prefix p u"
  proof
    assume "\<exists>t. p = u @ t \<and> prefix t (c # v)"
    then obtain t where t: "p = u @ t" "prefix t (c # v)" by blast
    with assms have "t = []" by (cases t) auto
    with t show ?thesis by simp
  qed
next
  assume "prefix p u"
  then show "prefix p (u @ c # v)" by (rule prefix_prefix)
qed

lemma occurrences_sep:
  "c \<notin> set p \<Longrightarrow> occurrences p (u @ c # v) = occurrences p u + occurrences p v"
proof (induction u)
  case Nil
  then have "prefix p (c # v) \<longleftrightarrow> p = []" using prefix_before_sep[of c p "[]" v] by simp
  then show ?case by simp
next
  case (Cons a u)
  from Cons.prems have "prefix p ((a # u) @ c # v) \<longleftrightarrow> prefix p (a # u)"
    by (rule prefix_before_sep)
  with Cons show ?case by simp
qed

text \<open>A text put between two separators that the marker does not contain.\<close>

lemma occurrences_insert:
  assumes "c \<notin> set p" "d \<notin> set p" "p \<noteq> []"
  shows "occurrences p (u @ c # d # w @ c # v) = occurrences p (u @ c # v) + occurrences p w"
proof -
  have "occurrences p (u @ c # d # w @ c # v) = occurrences p u + occurrences p (d # w @ c # v)"
    using assms(1) by (rule occurrences_sep)
  also have "occurrences p (d # w @ c # v) = occurrences p [] + occurrences p (w @ c # v)"
    using occurrences_sep[OF assms(2), of "[]" "w @ c # v"] by simp
  also have "occurrences p (w @ c # v) = occurrences p w + occurrences p v"
    using assms(1) by (rule occurrences_sep)
  finally show ?thesis using assms(3) occurrences_sep[OF assms(1), of u v] by simp
qed

lemma import_line_split: "import_line = (''import DebugLogger from './DebugLogger.js'' @ [CHR 0x27]) @ '';''"
  by (simp add: import_line_def)

lemma import_marker_once:
  "occurrences ''import DebugLogger'' (''import DebugLogger from './DebugLogger.js'' @ [CHR 0x27]) = 1"
  by simp

lemma import_marker_count:
  "occurrences ''import DebugLogger'' (add_import content)
     = max 1 (occurrences ''import DebugLogger'' content)"
proof -
  let ?M = "''import DebugLogger''"
  let ?w = "(''import DebugLogger from './DebugLogger.js'' @ [CHR 0x27])"
  have sep: "CHR '';'' \<notin> set ?M" "CHR ''\<newline>'' \<notin> set ?M" "?M \<noteq> []" by simp_all
  consider
    (same) "sublist ?M content" "add_import content = content"
    | (top) "\<not> sublist ?M content" "add_import content = import_line @ ''\<newline>'' @ content"
    | (after) pre rest where "\<not> sublist ?M content" "content = pre @ '';'' @ rest"
        "add_import content = pre @ '';'' @ (''\<newline>'' @ import_line) @ rest"
    using add_import_shape[of content] by blast
  then show ?thesis
  proof cases
    case same
    from same(1) have "occurrences ?M content \<noteq> 0" by (simp add: occurrences_zero)
    with same(2) show ?thesis by simp
  next
    case top
    from top(1) have z: "occurrences ?M content = 0" by (simp add: occurrences_zero)
    have "add_import content = ?w @ CHR '';'' # (CHR ''\<newline>'' # content)"
      unfolding top(2) import_line_split by simp
    then have "occurrences ?M (add_import content)
        = occurrences ?M ?w + occurrences ?M (CHR ''\<newline>'' # content)"
      using occurrences_sep[OF sep(1), of ?w "CHR ''\<newline>'' # content"] by simp
    also have "occurrences ?M (CHR ''\<newline>'' # content) = occurrences ?M content"
      using occurrences_sep[OF sep(2), of "[]" content] by simp
    finally show ?thesis using z import_marker_once by simp
  next
    case after
    from after(1) have z: "occurrences ?M content = 0" by (simp add: occurrences_zero)
    have "add_import content = pre @ CHR '';'' # CHR ''\<newline>'' # ?w @ CHR '';'' # rest"
      unfolding after(3) import_line_split by simp
    then have "occurrences ?M (add_import content)
        = occurrences ?M (pre @ CHR '';'' # rest) + occurrences ?M ?w"
      using occurrences_insert[OF sep, of pre ?w rest] by simp
    also have "pre @ CHR '';'' # rest = content" unfolding after(2) by simp
    finally show ?thesis using z import_marker_once by simp
  qed
qed

lemma add_import_one_splice:
  "add_import content = content
   \<or> (\<exists>pre rest. content = pre @ rest
        \<and> (add_import content = pre @ import_line @ ''\<newline>'' @ rest
           \<or> add_import content = pre @ ''\<newline>'' @ import_line @ rest))"
proof -
  consider
    (same) "add_import content = content"
    | (top) "add_import content = import_line @ ''\<newline>'' @ content"
    | (after) pre rest where "content = pre @ '';'' @ rest"
        "add_import content = pre @ '';'' @ (''\<newline>'' @ import_line) @ rest"
    using add_import_shape[of content] by blast
  then show ?thesis
  proof cases
    case same
    then show ?thesis by simp
  next
    case top
    then have "content = [] @ content \<and> add_import content = [] @ import_line @ ''\<newline>'' @ content"
      by simp
    then show ?thesis by blast
  next
    case after
    then have "content = (pre @ '';'') @ rest
        \<and> add_import content = (pre @ '';'') @ ''\<newline>'' @ import_line @ rest" by simp
    then show ?thesis by blast
  qed
qed

lemma debug_line_split:
  "debug_line class_name
     = CHR ''\<newline>'' # (''    this.debug = DebugLogger.create'' @ CHR ''('' # CHR 0x27 # class_name
         @ CHR 0x27 # '')'') @ '';''"
  by (simp add: debug_line_def)

lemma debug_marker_in_line:
  "occurrences ''this.debug = DebugLogger.create''
     (''    this.debug = DebugLogger.create'' @ CHR ''('' # CHR 0x27 # class_name @ CHR 0x27 # '')'')
   = 1 + occurrences ''this.debug = DebugLogger.create'' class_name"
proof -
  let ?M = "''this.debug = DebugLogger.create''"
  have sep: "CHR ''('' \<notin> set ?M" "CHR 0x27 \<notin> set ?M" by simp_all
  have "occurrences ?M (''    this.debug = DebugLogger.create'' @ CHR ''('' # (CHR 0x27 # class_name @ CHR 0x27 # '')''))
      = occurrences ?M ''    this.debug = DebugLogger.create''
        + occurrences ?M (CHR 0x27 # class_name @ CHR 0x27 # '')'')"
    using sep(1) by (rule occurrences_sep)
  also have "occurrences ?M (CHR 0x27 # class_name @ CHR 0x27 # '')'')
      = occurrences ?M (class_name @ CHR 0x27 # '')'')"
    using occurrences_sep[OF sep(2), of "[]" "class_name @ CHR 0x27 # '')''"] by simp
  also have "\<dots> = occurrences ?M class_name + occurrences ?M '')''"
    using sep(2) by (rule occurrences_sep)
  finally show ?thesis by simp
qed

lemma add_debug_instance_one_splice:
  "add_debug_instance class_name x = x
   \<or> (\<exists>pre rest. x = pre @ rest \<and> \<not> sublist ''this.debug = DebugLogger.create'' x
        \<and> add_debug_instance class_name x = pre @ debug_line class_name @ rest
        \<and> suffix ''super();'' pre)"
proof (cases "sublist ''this.debug = DebugLogger.create'' x")
  case True
  then show ?thesis by (simp add: add_debug_instance_present)
next
  case nm: False
  show ?thesis
  proof (cases "search_constructor x")
    case None
    then show ?thesis by (simp add: add_debug_instance_none)
  next
    case (Some m)
    from add_debug_instance_found[OF nm Some, of class_name] obtain pre rest where
      x: "x = pre @ m @ rest" and mt: "match_constructor_at (m @ rest) = Some m"
      and r: "add_debug_instance class_name x = pre @ m @ debug_line class_name @ rest" by blast
    from match_constructor_atD[OF mt] have "suffix ''super();'' m"
      by (auto simp: suffix_def)
    then have "suffix ''super();'' (pre @ m)" by (rule suffix_appendI)
    with x r nm have "x = (pre @ m) @ rest \<and> \<not> sublist ''this.debug = DebugLogger.create'' x
        \<and> add_debug_instance class_name x = (pre @ m) @ debug_line class_name @ rest
        \<and> suffix ''super();'' (pre @ m)" by simp
    then show ?thesis by blast
  qed
qed

lemma debug_marker_count_found:
  assumes "\<not> sublist ''this.debug = DebugLogger.create'' x" "search_constructor x \<noteq> None"
  shows "occurrences ''this.debug = DebugLogger.create'' (add_debug_instance class_name x)
         = 1 + occurrences ''this.debug = DebugLogger.create'' class_name"
proof -
  let ?M = "''this.debug = DebugLogger.create''"
  let ?w = "''    this.debug = DebugLogger.create'' @ CHR ''('' # CHR 0x27 # class_name @ CHR 0x27 # '')''"
  have sep: "CHR '';'' \<notin> set ?M" "CHR ''\<newline>'' \<notin> set ?M" "?M \<noteq> []" by simp_all
  from assms(2) obtain m where m: "search_constructor x = Some m" by auto
  from add_debug_instance_found[OF assms(1) m, of class_name] obtain pre rest where
    x: "x = pre @ m @ rest" and mt: "match_constructor_at (m @ rest) = Some m"
    and r: "add_debug_instance class_name x = pre @ m @ debug_line class_name @ rest" by blast
  from match_constructor_atD[OF mt] obtain m' where m': "m = m' @ ''super()'' @ '';''"
    by auto
  from assms(1) have z: "occurrences ?M x = 0" by (simp add: occurrences_zero)
  have "add_debug_instance class_name x
      = (pre @ m' @ ''super()'') @ CHR '';'' # CHR ''\<newline>'' # ?w @ CHR '';'' # rest"
    unfolding r m' debug_line_split by simp
  then have "occurrences ?M (add_debug_instance class_name x)
      = occurrences ?M ((pre @ m' @ ''super()'') @ CHR '';'' # rest) + occurrences ?M ?w"
    using occurrences_insert[OF sep, of "pre @ m' @ ''super()''" ?w rest] by simp
  also have "(pre @ m' @ ''super()'') @ CHR '';'' # rest = x" unfolding x m' by simp
  finally show ?thesis using z debug_marker_in_line[of class_name] by simp
qed

lemma debug_marker_count:
  "occurrences ''this.debug = DebugLogger.create'' (add_debug_instance class_name x)
     \<le> max (occurrences ''this.debug = DebugLogger.create'' x)
           (1 + occurrences ''this.debug = DebugLogger.create'' class_name)"
proof (cases "\<not> sublist ''this.debug = DebugLogger.create'' x \<and> search_constructor x \<noteq> None")
  case True
  then show ?thesis using debug_marker_count_found[of x class_name] by simp
next
  case False
  then have "add_debug_instance class_name x = x"
    by (auto simp: add_debug_instance_def)
  then show ?thesis by simp
qed

text \<open>
  Claim C7. In one run each of the two insertions changes the document at most once.
  The import step leaves the document as it is or puts the one import line at one
  place; afterwards the marker \<open>import DebugLogger\<close> occurs as often as before, or once
  when it did not occur. The logger step leaves its document \<open>x\<close> as it is or puts the
  one line \<open>debug_line\<close> at one place; afterwards the marker
  \<open>this.debug = DebugLogger.create\<close> occurs at most as often as before, or once (plus
  the times the class name itself contains it, none for the names of \<open>files_config\<close>).
\<close>

theorem at_most_one_insertion:
  "(add_import content = content
      \<or> (\<exists>pre rest. content = pre @ rest
           \<and> (add_import content = pre @ import_line @ ''\<newline>'' @ rest
              \<or> add_import content = pre @ ''\<newline>'' @ import_line @ rest)))
   \<and> occurrences ''import DebugLogger'' (add_import content)
       = max 1 (occurrences ''import DebugLogger'' content)
   \<and> (add_debug_instance class_name x = x
      \<or> (\<exists>pre rest. x = pre @ rest
           \<and> add_debug_instance class_name x = pre @ debug_line class_name @ rest))
   \<and> occurrences ''this.debug = DebugLogger.create'' (add_debug_instance class_name x)
       \<le> max (occurrences ''this.debug = DebugLogger.create'' x)
             (1 + occurrences ''this.debug = DebugLogger.create'' class_name)"
proof (intro conjI)
  show "add_import content = content
      \<or> (\<exists>pre rest. content = pre @ rest
           \<and> (add_import content = pre @ import_line @ ''\<newline>'' @ rest
              \<or> add_import content = pre @ ''\<newline>'' @ import_line @ rest))"
    by (rule add_import_one_splice)
  show "occurrences ''import DebugLogger'' (add_import content)
       = max 1 (occurrences ''import DebugLogger'' content)"
    by (rule import_marker_count)
  show "add_debug_instance class_name x = x
      \<or> (\<exists>pre rest. x = pre @ rest
           \<and> add_debug_instance class_name x = pre @ debug_line class_name @ rest)"
    using add_debug_instance_one_splice[of class_name x] by blast
  show "occurrences ''this.debug = DebugLogger.create'' (add_debug_instance class_name x)
       \<le> max (occurrences ''this.debug = DebugLogger.create'' x)
             (1 + occurrences ''this.debug = DebugLogger.create'' class_name)"
    by (rule debug_marker_count)
qed

theorem at_most_one_insertion_witness:
  "occurrences ''import DebugLogger'' (add_import ''import a;import a;'') = 1
   \<and> occurrences ''this.debug = DebugLogger.create''
        (add_debug_instance ''Widget'' ''constructor(x) { super(); } constructor(y) { super(); }'')
       \<le> 1
   \<and> add_debug_instance ''Widget'' ''constructor(x) { super(); } constructor(y) { super(); }''
       = ''constructor(x) { super();\<newline>    this.debug = DebugLogger.create('Widget'); } constructor(y) { super(); }''"
proof -
  have a: "occurrences ''import DebugLogger'' ''import a;import a;'' = 0" by simp
  have b: "occurrences ''this.debug = DebugLogger.create''
      ''constructor(x) { super(); } constructor(y) { super(); }'' = 0" by simp
  have c: "occurrences ''this.debug = DebugLogger.create'' ''Widget'' = 0" by simp
  have d: "add_debug_instance ''Widget'' ''constructor(x) { super(); } constructor(y) { super(); }''
       = ''constructor(x) { super();\<newline>    this.debug = DebugLogger.create('Widget'); } constructor(y) { super(); }''"
    by (simp add: add_debug_instance_def sublist_code(3) match_constructor_at_def is_space_def
        debug_line_def)
  from at_most_one_insertion[of "''import a;import a;''" "''Widget''"
      "''constructor(x) { super(); } constructor(y) { super(); }''"]
  show ?thesis unfolding a b c using d by simp
qed

subsection \<open>A document without import statements\<close>

lemma match_constructor_at_prefix:
  "match_constructor_at s = Some m \<Longrightarrow> prefix ''constructor('' s"
  unfolding match_constructor_at_def by (simp split: if_splits)

lemma not_prefix_clear:
  assumes "tails_clear t L" "suffix v t" "v \<noteq> []"
  shows "\<not> prefix L (v @ s)"
proof
  assume "prefix L (v @ s)"
  then have "prefix L v \<or> prefix v L" using prefix_append[of L v s] by auto
  moreover from assms have "v \<parallel> L" by (rule tails_clearD)
  ultimately show False by (auto simp: parallel_def)
qed

lemma search_constructor_skip:
  "tails_clear t ''constructor('' \<Longrightarrow> search_constructor (t @ s) = search_constructor s"
proof (induction t)
  case Nil
  then show ?case by simp
next
  case (Cons c t)
  have "\<not> prefix ''constructor('' ((c # t) @ s)"
    using Cons.prems by (rule not_prefix_clear) simp_all
  then have "match_constructor_at ((c # t) @ s) = None"
    using match_constructor_at_prefix[of "(c # t) @ s"] by (cases "match_constructor_at ((c # t) @ s)") auto
  with Cons show ?case by simp
qed

lemma replace_first_skip:
  "(\<forall>v. suffix v t \<and> v \<noteq> [] \<longrightarrow> \<not> prefix old (v @ s)) \<Longrightarrow>
   replace_first old new (t @ s) = t @ replace_first old new s"
proof (induction t)
  case Nil
  then show ?case by simp
next
  case (Cons c t)
  have "suffix (c # t) (c # t) \<and> c # t \<noteq> []" by simp
  with Cons.prems have "\<not> prefix old ((c # t) @ s)" by blast
  moreover have "\<forall>v. suffix v t \<and> v \<noteq> [] \<longrightarrow> \<not> prefix old (v @ s)"
    using Cons.prems by (auto simp: suffix_Cons)
  ultimately show ?case using Cons.IH by simp
qed

lemma add_debug_instance_skip:
  assumes "tails_clear t ''constructor(''" "apart ''this.debug = DebugLogger.create'' t"
  shows "add_debug_instance class_name (t @ s) = t @ add_debug_instance class_name s"
proof -
  let ?M = "''this.debug = DebugLogger.create''"
  have g: "sublist ?M (t @ s) \<longleftrightarrow> sublist ?M s"
    using sublist_remove[of ?M "[]" t s] assms(2) sublist_prepend[of ?M s t] by auto
  have sc: "search_constructor (t @ s) = search_constructor s"
    using assms(1) by (rule search_constructor_skip)
  show ?thesis
  proof (cases "search_constructor s")
    case None
    with sc g show ?thesis by (simp add: add_debug_instance_def)
  next
    case (Some m)
    from search_constructor_Some[OF Some] obtain rest where
      "match_constructor_at (m @ rest) = Some m" by blast
    from match_constructor_atD[OF this] obtain x where m: "m = ''constructor('' @ x" by auto
    have "\<forall>v. suffix v t \<and> v \<noteq> [] \<longrightarrow> \<not> prefix m (v @ s)"
    proof (intro allI impI notI)
      fix v assume a: "suffix v t \<and> v \<noteq> []" and p: "prefix m (v @ s)"
      from p have "prefix ''constructor('' (v @ s)" unfolding m by (rule append_prefixD)
      with not_prefix_clear[OF assms(1), of v s] a show False by simp
    qed
    then have "replace_first m (m @ debug_line class_name) (t @ s)
        = t @ replace_first m (m @ debug_line class_name) s"
      by (rule replace_first_skip)
    with Some sc g show ?thesis by (simp add: add_debug_instance_def)
  qed
qed

lemma replace_console_skip:
  assumes "\<And>k. tails_clear t (console_call k)"
  shows "replace_console (t @ s) = t @ replace_console s"
  unfolding replace_console_steps step_def
  by (simp add: re_sub_skip[OF assms])

lemma import_line_clear:
  "tails_clear (import_line @ ''\<newline>'') ''constructor(''"
  "apart ''this.debug = DebugLogger.create'' (import_line @ ''\<newline>'')"
  "tails_clear (import_line @ ''\<newline>'') (console_call k)"
proof -
  show "tails_clear (import_line @ ''\<newline>'') ''constructor(''"
    by (rule tails_clear_hd) (simp_all add: import_line_def)
  show "apart ''this.debug = DebugLogger.create'' (import_line @ ''\<newline>'')"
    by (simp add: apart_def parallel_def import_line_def)
  show "tails_clear (import_line @ ''\<newline>'') (console_call k)"
    by (rule tails_clear_hd) (simp_all add: import_line_def console_call_ne hd_console)
qed

text \<open>
  Claim C4, as amended. When \<open>re.findall\<close> finds no import statement and the document
  does not contain \<open>import DebugLogger\<close>, the import line is the first line of the
  result, and the original content follows it, changed by the two later steps only:
  the logger instance behind the \<open>super();\<close> of a constructor, when the pattern matches,
  and the substitution of the call sites.
\<close>

theorem import_first_line_without_imports:
  assumes "findall_import content = []" "\<not> sublist ''import DebugLogger'' content"
  shows "add_import content = import_line @ ''\<newline>'' @ content
       \<and> update_content content class_name
         = import_line @ ''\<newline>'' @ replace_console (add_debug_instance class_name content)"
proof -
  from assms have a: "add_import content = (import_line @ ''\<newline>'') @ content"
    by (simp add: add_import_def)
  have "add_debug_instance class_name ((import_line @ ''\<newline>'') @ content)
      = (import_line @ ''\<newline>'') @ add_debug_instance class_name content"
    using import_line_clear(1,2) by (rule add_debug_instance_skip)
  moreover have "replace_console ((import_line @ ''\<newline>'') @ add_debug_instance class_name content)
      = (import_line @ ''\<newline>'') @ replace_console (add_debug_instance class_name content)"
    using import_line_clear(3) by (rule replace_console_skip)
  ultimately show ?thesis unfolding update_content_def a by simp
qed

theorem import_first_line_without_imports_witness:
  "findall_import ''class A { f() { console.log(1) } }'' = []
   \<and> \<not> sublist ''import DebugLogger'' ''class A { f() { console.log(1) } }''
   \<and> update_content ''class A { f() { console.log(1) } }'' ''A''
     = ''import DebugLogger from './DebugLogger.js';\<newline>class A { f() { this.debug.log(1) } }''"
proof -
  let ?D = "''class A { f() { console.log(1) } }''"
  have f: "findall_import ?D = []" by (simp add: match_import_at_def)
  have n: "\<not> sublist ''import DebugLogger'' ?D" by (simp add: sublist_code(3))
  have d: "add_debug_instance ''A'' ?D = ?D"
    by (simp add: add_debug_instance_def sublist_code(3) match_constructor_at_def)
  have r: "replace_console ?D = ''class A { f() { this.debug.log(1) } }''"
    by (simp add: replace_console_def replacements_def console_call_def debug_call_def
        re_sub.simps(2))
  from import_first_line_without_imports[OF f n, of "''A''"] f n show ?thesis
    unfolding d r by (simp add: import_line_def)
qed

text \<open>
  The rest is not the original content with only the call sites substituted: a
  document with a constructor also gets the logger line.
\<close>

theorem import_first_line_counterexample:
  "findall_import ''constructor(){super();'' = []
   \<and> \<not> sublist ''import DebugLogger'' ''constructor(){super();''
   \<and> replace_console ''constructor(){super();'' = ''constructor(){super();''
   \<and> update_content ''constructor(){super();'' ''A''
     = ''import DebugLogger from './DebugLogger.js';\<newline>constructor(){super();\<newline>    this.debug = DebugLogger.create('A');''
   \<and> update_content ''constructor(){super();'' ''A''
     \<noteq> import_line @ ''\<newline>'' @ replace_console ''constructor(){super();''"
proof -
  let ?D = "''constructor(){super();''"
  have f: "findall_import ?D = []" by (simp add: match_import_at_def)
  have n: "\<not> sublist ''import DebugLogger'' ?D" by (simp add: sublist_code(3))
  have a: "add_import ?D = ''import DebugLogger from './DebugLogger.js';\<newline>constructor(){super();''"
    unfolding add_import_def f by (simp add: sublist_code(3) import_line_def)
  have d: "add_debug_instance ''A'' ''import DebugLogger from './DebugLogger.js';\<newline>constructor(){super();''
      = ''import DebugLogger from './DebugLogger.js';\<newline>constructor(){super();\<newline>    this.debug = DebugLogger.create('A');''"
    by (simp add: add_debug_instance_def sublist_code(3) match_constructor_at_def debug_line_def
        is_space_def)
  have r: "replace_console ''import DebugLogger from './DebugLogger.js';\<newline>constructor(){super();\<newline>    this.debug = DebugLogger.create('A');''
      = ''import DebugLogger from './DebugLogger.js';\<newline>constructor(){super();\<newline>    this.debug = DebugLogger.create('A');''"
    by (simp add: replace_console_def replacements_def console_call_def debug_call_def
        re_sub.simps(2))
  have r0: "replace_console ?D = ?D"
    by (simp add: replace_console_def replacements_def console_call_def debug_call_def
        re_sub.simps(2))
  have u: "update_content ?D ''A''
     = ''import DebugLogger from './DebugLogger.js';\<newline>constructor(){super();\<newline>    this.debug = DebugLogger.create('A');''"
    unfolding update_content_def a d r ..
  show ?thesis unfolding u r0 using f n by (simp add: import_line_def)
qed

subsection \<open>Where the logger line goes\<close>

lemma replace_console_keeps:
  assumes "\<And>k. tails_clear (tl (console_call k)) L" "\<And>k. tails_clear L (console_call k)" "L \<noteq> []"
  shows "replace_console (u @ L @ v) = replace_console u @ L @ replace_console v"
  unfolding replace_console_steps step_def
  by (simp add: re_sub_keeps[OF assms(1) assms(2) assms(3)])

lemma widget_line_clear:
  "tails_clear (tl (console_call k)) (''super();'' @ debug_line ''Widget'')"
  "tails_clear (''super();'' @ debug_line ''Widget'') (console_call k)"
  by (cases k; simp add: console_call_def debug_line_def parallel_def)+

lemma debug_line_marker: "sublist ''this.debug = DebugLogger.create'' (u @ debug_line class_name @ v)"
proof -
  have "u @ debug_line class_name @ v
      = (u @ ''\<newline>    '') @ ''this.debug = DebugLogger.create''
        @ (''('' @ [CHR 0x27] @ class_name @ [CHR 0x27] @ '');'' @ v)"
    by (simp add: debug_line_def)
  then show ?thesis unfolding sublist_def by blast
qed

text \<open>
  Claim C5. For a document that contains a constructor the pattern can match and not
  the marker \<open>this.debug = DebugLogger.create\<close>, the transform with the component name
  \<open>Widget\<close> puts the line \<open>this.debug = DebugLogger.create('Widget');\<close> directly behind the
  \<open>super();\<close> that ends the match. It does so once: the marker then occurs exactly
  once, and running the logger step again changes nothing. In the final document the
  line still stands directly behind that \<open>super();\<close>.
\<close>

theorem logger_after_super:
  assumes "has_constructor content" "\<not> sublist ''this.debug = DebugLogger.create'' content"
  shows "\<exists>pre m rest.
           add_import content = pre @ m @ ''super();'' @ rest
         \<and> search_constructor (add_import content) = Some (m @ ''super();'')
         \<and> add_debug_instance ''Widget'' (add_import content)
             = pre @ m @ ''super();'' @ debug_line ''Widget'' @ rest
         \<and> add_debug_instance ''Widget'' (add_debug_instance ''Widget'' (add_import content))
             = add_debug_instance ''Widget'' (add_import content)
         \<and> occurrences ''this.debug = DebugLogger.create''
              (add_debug_instance ''Widget'' (add_import content)) = 1
         \<and> update_content content ''Widget''
             = replace_console (pre @ m) @ ''super();'' @ debug_line ''Widget''
               @ replace_console rest"
proof -
  let ?x = "add_import content"
  from assms(1) have "has_constructor ?x" by (simp add: has_constructor_add_import)
  then obtain m0 where s: "search_constructor ?x = Some m0"
    by (auto simp: has_constructor_iff)
  from assms(2) have nm: "\<not> sublist ''this.debug = DebugLogger.create'' ?x"
    by (simp add: debug_marker_add_import)
  from add_debug_instance_found[OF nm s, of "''Widget''"] obtain pre rest where
    x: "?x = pre @ m0 @ rest" and mt: "match_constructor_at (m0 @ rest) = Some m0"
    and r: "add_debug_instance ''Widget'' ?x = pre @ m0 @ debug_line ''Widget'' @ rest" by blast
  from match_constructor_atD[OF mt] obtain m where m: "m0 = m @ ''super();''" by auto
  have again: "add_debug_instance ''Widget'' (add_debug_instance ''Widget'' ?x)
      = add_debug_instance ''Widget'' ?x"
    unfolding r using debug_line_marker[of "pre @ m0" "''Widget''" rest]
    by (simp add: add_debug_instance_present)
  have "occurrences ''this.debug = DebugLogger.create'' ''Widget'' = 0" by simp
  with debug_marker_count_found[OF nm, of "''Widget''"] s
  have once: "occurrences ''this.debug = DebugLogger.create''
      (add_debug_instance ''Widget'' ?x) = 1" by simp
  have "update_content content ''Widget''
      = replace_console ((pre @ m) @ (''super();'' @ debug_line ''Widget'') @ rest)"
    unfolding update_content_def r m by simp
  also have "\<dots> = replace_console (pre @ m) @ (''super();'' @ debug_line ''Widget'')
      @ replace_console rest"
    by (rule replace_console_keeps) (rule widget_line_clear, rule widget_line_clear, simp)
  finally have u: "update_content content ''Widget''
      = replace_console (pre @ m) @ ''super();'' @ debug_line ''Widget'' @ replace_console rest"
    by simp
  from x s r again once u show ?thesis unfolding m by auto
qed

theorem logger_after_super_witness:
  "has_constructor ''class W extends B { constructor(x) { super(); this.x = x; } }''
   \<and> \<not> sublist ''this.debug = DebugLogger.create''
        ''class W extends B { constructor(x) { super(); this.x = x; } }''
   \<and> occurrences ''this.debug = DebugLogger.create''
        (add_debug_instance ''Widget''
          (add_import ''class W extends B { constructor(x) { super(); this.x = x; } }'')) = 1
   \<and> add_debug_instance ''Widget'' ''class W extends B { constructor(x) { super(); this.x = x; } }''
       = ''class W extends B { constructor(x) { super();\<newline>    this.debug = DebugLogger.create('Widget'); this.x = x; } }''"
proof -
  let ?D = "''class W extends B { constructor(x) { super(); this.x = x; } }''"
  have "search_constructor ?D = Some ''constructor(x) { super();''"
    by (simp add: match_constructor_at_def is_space_def)
  then have h: "has_constructor ?D" by (simp add: has_constructor_iff)
  have n: "\<not> sublist ''this.debug = DebugLogger.create'' ?D" by (simp add: sublist_code(3))
  have e: "add_debug_instance ''Widget'' ?D
       = ''class W extends B { constructor(x) { super();\<newline>    this.debug = DebugLogger.create('Widget'); this.x = x; } }''"
    by (simp add: add_debug_instance_def sublist_code(3) match_constructor_at_def is_space_def
        debug_line_def)
  from logger_after_super[OF h n] have "occurrences ''this.debug = DebugLogger.create''
        (add_debug_instance ''Widget'' (add_import ?D)) = 1" by blast
  with h n e show ?thesis by blast
qed

subsection \<open>Where the import line goes\<close>

text \<open>
  The inserted line break and import line share no character sequence with an opener
  of a call on \<open>console\<close>, so the substitution of the call sites works on the text in
  front of them and on the text behind them separately. The constructor pattern may
  match in front of the line, behind it, or across it; in each case the logger line
  lands behind a \<open>super();\<close> and outside the inserted import line, which contains no
  semicolon before its last character.
\<close>

lemma import_splice_clear:
  "tails_clear (tl (console_call k)) (''\<newline>'' @ import_line)"
  "tails_clear (''\<newline>'' @ import_line) (console_call k)"
  by (cases k; simp add: console_call_def import_line_def parallel_def)+

lemma replace_console_import_line:
  "replace_console (before @ ''\<newline>'' @ import_line @ after)
   = replace_console before @ ''\<newline>'' @ import_line @ replace_console after"
proof -
  have "replace_console (before @ (''\<newline>'' @ import_line) @ after)
      = replace_console before @ (''\<newline>'' @ import_line) @ replace_console after"
    by (rule replace_console_keeps) (rule import_splice_clear, rule import_splice_clear, simp)
  then show ?thesis by simp
qed

lemma no_semicolon_inside_import_line:
  assumes "w @ us = ''\<newline>'' @ import_line" "us \<noteq> []"
  shows "CHR '';'' \<notin> set w"
proof -
  have "''\<newline>'' @ import_line = (''\<newline>'' @ butlast import_line) @ '';''"
    by (simp add: import_line_def)
  with assms(1) have "w @ us = (''\<newline>'' @ butlast import_line) @ '';''" by simp
  with assms(2) have "w @ butlast us = ''\<newline>'' @ butlast import_line"
    by (metis butlast_append butlast_snoc)
  then have "set w \<subseteq> set (''\<newline>'' @ butlast import_line)"
    by (metis set_append Un_upper1)
  then show ?thesis by (auto simp: import_line_def)
qed

lemma logger_around_import_line:
  "\<exists>before after.
      replace_console (add_debug_instance class_name (a @ ''\<newline>'' @ import_line @ b))
        = replace_console before @ ''\<newline>'' @ import_line @ replace_console after
    \<and> (before = a \<and> after = b
       \<or> (\<exists>p t. a = p @ t \<and> suffix ''super();'' p
             \<and> before = p @ debug_line class_name @ t \<and> after = b)
       \<or> (\<exists>t q. b = t @ q \<and> suffix ''super();'' (a @ ''\<newline>'' @ import_line @ t)
             \<and> before = a \<and> after = t @ debug_line class_name @ q))"
  (is "\<exists>before after. ?R before after")
proof -
  let ?L = "''\<newline>'' @ import_line"
  let ?x = "a @ ''\<newline>'' @ import_line @ b"
  let ?dl = "debug_line class_name"
  from add_debug_instance_one_splice[of class_name ?x] show ?thesis
  proof
    assume "add_debug_instance class_name ?x = ?x"
    then have "replace_console (add_debug_instance class_name ?x)
        = replace_console a @ ''\<newline>'' @ import_line @ replace_console b"
      by (simp only: replace_console_import_line)
    then have "?R a b" by (intro conjI disjI1) simp_all
    then show ?thesis by (intro exI)
  next
    assume "\<exists>pre rest. ?x = pre @ rest \<and> \<not> sublist ''this.debug = DebugLogger.create'' ?x
        \<and> add_debug_instance class_name ?x = pre @ ?dl @ rest \<and> suffix ''super();'' pre"
    then obtain p q where x0: "?x = p @ q"
      and r: "add_debug_instance class_name ?x = p @ ?dl @ q"
      and s: "suffix ''super();'' p" by (elim exE conjE)
    from x0 have x: "a @ (?L @ b) = p @ q" by simp
    from x obtain w where w: "(a = p @ w \<and> w @ ?L @ b = q) \<or> (a @ w = p \<and> ?L @ b = w @ q)"
      unfolding append_eq_append_conv2 by (elim exE)
    have inside: ?thesis if a: "a = p @ t" and q: "q = t @ ?L @ b" for t
    proof -
      have "add_debug_instance class_name ?x = (p @ ?dl @ t) @ ''\<newline>'' @ import_line @ b"
        unfolding r q by simp
      then have e: "replace_console (add_debug_instance class_name ?x)
          = replace_console (p @ ?dl @ t) @ ''\<newline>'' @ import_line @ replace_console b"
        by (simp only: replace_console_import_line)
      have "\<exists>p' t'. a = p' @ t' \<and> suffix ''super();'' p'
             \<and> p @ ?dl @ t = p' @ ?dl @ t' \<and> b = b"
        by (rule exI[of _ p], rule exI[of _ t]) (simp add: a s)
      with e have "?R (p @ ?dl @ t) b" by (intro conjI disjI2 disjI1)
      then show ?thesis by (intro exI)
    qed
    have behind: ?thesis if p: "p = a @ ?L @ t" and b: "b = t @ q" for t
    proof -
      have "add_debug_instance class_name ?x = a @ ''\<newline>'' @ import_line @ (t @ ?dl @ q)"
        unfolding r p by simp
      then have e: "replace_console (add_debug_instance class_name ?x)
          = replace_console a @ ''\<newline>'' @ import_line @ replace_console (t @ ?dl @ q)"
        by (simp only: replace_console_import_line)
      from s have s': "suffix ''super();'' (a @ ''\<newline>'' @ import_line @ t)"
        unfolding p by simp
      have "\<exists>t' q'. b = t' @ q' \<and> suffix ''super();'' (a @ ''\<newline>'' @ import_line @ t')
             \<and> a = a \<and> t @ ?dl @ q = t' @ ?dl @ q'"
        by (rule exI[of _ t], rule exI[of _ q]) (use s' in \<open>simp add: b\<close>)
      with e have "?R a (t @ ?dl @ q)" by (intro conjI disjI2)
      then show ?thesis by (intro exI)
    qed
    from w show ?thesis
    proof
      assume h: "a = p @ w \<and> w @ ?L @ b = q"
      show ?thesis by (rule inside[of w]) (simp_all add: h[THEN conjunct1] h[THEN conjunct2, symmetric])
    next
      assume h: "a @ w = p \<and> ?L @ b = w @ q"
      then have hp: "p = a @ w" and hq: "w @ q = ?L @ b" by simp_all
      from hq obtain us where us: "(w = ?L @ us \<and> us @ q = b) \<or> (w @ us = ?L \<and> q = us @ b)"
        unfolding append_eq_append_conv2 by (elim exE)
      then show ?thesis
      proof
        assume h1: "w = ?L @ us \<and> us @ q = b"
        show ?thesis by (rule behind[of us]) (simp_all add: hp h1[THEN conjunct1] h1[THEN conjunct2, symmetric])
      next
        assume h2: "w @ us = ?L \<and> q = us @ b"
        show ?thesis
        proof (cases "w = []")
          case True
          with hp h2 have "a = p @ []" "q = [] @ ?L @ b" by simp_all
          then show ?thesis by (rule inside)
        next
          case wne: False
          show ?thesis
          proof (cases "us = []")
            case True
            with hp h2 have "p = a @ ?L @ []" "b = [] @ q" by simp_all
            then show ?thesis by (rule behind)
          next
            case False
            with h2 have ns: "CHR '';'' \<notin> set w" using no_semicolon_inside_import_line by blast
            from s obtain p' where "p = p' @ ''super();''" by (auto simp: suffix_def)
            then have "last p = CHR '';''" by simp
            with hp wne have "last w = CHR '';''" by simp
            with wne have "CHR '';'' \<in> set w" using last_in_set by metis
            with ns show ?thesis by simp
          qed
        qed
      qed
    qed
  qed
qed

text \<open>
  Claim C3, as amended. When \<open>re.findall\<close> finds exactly one import statement \<open>m\<close> and the
  document does not contain \<open>import DebugLogger\<close>, the import step puts a line break and
  the line \<open>import DebugLogger from './DebugLogger.js';\<close> directly behind that statement,
  at the place where the pattern matched (no match starts before it), and changes
  nothing else; the marker then occurs exactly once. In the result of the transform
  the line break and the import line stand between the text up to the end of the
  statement and the text behind it, and each of the two sides is changed by the later
  steps only: the substitution of the call sites on both sides, and at most one logger
  line, which is put behind a \<open>super();\<close> either in the text up to the end of the
  statement (possibly at its very end, between the statement and the import line) or
  in the text behind the import line.
\<close>

theorem import_after_single_statement:
  assumes "findall_import content = [m]" "\<not> sublist ''import DebugLogger'' content"
  shows "\<exists>pre rest. content = pre @ m @ rest
         \<and> match_import_at (m @ rest) = Some m
         \<and> (\<forall>u v. pre = u @ v \<and> v \<noteq> [] \<longrightarrow> match_import_at (v @ m @ rest) = None)
         \<and> add_import content = pre @ m @ ''\<newline>'' @ import_line @ rest
         \<and> occurrences ''import DebugLogger'' (add_import content) = 1
         \<and> (\<exists>before after.
               update_content content class_name
                 = replace_console before @ ''\<newline>'' @ import_line @ replace_console after
             \<and> (before = pre @ m \<and> after = rest
                \<or> (\<exists>p t. pre @ m = p @ t \<and> suffix ''super();'' p
                      \<and> before = p @ debug_line class_name @ t \<and> after = rest)
                \<or> (\<exists>t q. rest = t @ q
                      \<and> suffix ''super();'' ((pre @ m) @ ''\<newline>'' @ import_line @ t)
                      \<and> before = pre @ m \<and> after = t @ debug_line class_name @ q)))"
proof -
  from findall_import_Cons[OF assms(1)] obtain pre rest where
    c: "content = pre @ m @ rest" and mt: "match_import_at (m @ rest) = Some m"
    and left: "\<forall>u v. pre = u @ v \<and> v \<noteq> [] \<longrightarrow> match_import_at (v @ m @ rest) = None"
    by blast
  from match_import_atD[OF mt] obtain body where
    m: "m = ''import'' @ body @ '';''" "body \<noteq> []" "CHR '';'' \<notin> set body" by blast
  then have mne: "m \<noteq> []" by simp
  have "\<forall>u v. pre = u @ v \<and> v \<noteq> [] \<longrightarrow> \<not> prefix m (v @ m @ rest)"
  proof (intro allI impI notI)
    fix u v assume a: "pre = u @ v \<and> v \<noteq> []" and "prefix m (v @ m @ rest)"
    then obtain r where r: "v @ m @ rest = m @ r" by (auto simp: prefix_def)
    from left a have "match_import_at (v @ m @ rest) = None" by blast
    then have none: "match_import_at (m @ r) = None" unfolding r .
    have "match_import_at (''import'' @ body @ '';'' @ r) = Some (''import'' @ body @ '';'')"
      using m(2,3) by (rule match_import_atI)
    then have "match_import_at (m @ r) = Some m" unfolding m(1) by simp
    with none show False by simp
  qed
  with mne have "replace_first m (m @ ''\<newline>'' @ import_line) (pre @ m @ rest)
      = pre @ (m @ ''\<newline>'' @ import_line) @ rest"
    by (rule replace_first_at)
  with assms have a: "add_import content = pre @ m @ ''\<newline>'' @ import_line @ rest"
    unfolding add_import_def c[symmetric] by (simp add: Let_def)
  from assms(2) have "occurrences ''import DebugLogger'' content = 0"
    by (simp add: occurrences_zero)
  then have o: "occurrences ''import DebugLogger'' (add_import content) = 1"
    using import_marker_count[of content] by simp
  have u: "update_content content class_name
      = replace_console
          (add_debug_instance class_name ((pre @ m) @ ''\<newline>'' @ import_line @ rest))"
    unfolding update_content_def a by simp
  have l: "\<exists>before after.
          update_content content class_name
            = replace_console before @ ''\<newline>'' @ import_line @ replace_console after
        \<and> (before = pre @ m \<and> after = rest
           \<or> (\<exists>p t. pre @ m = p @ t \<and> suffix ''super();'' p
                 \<and> before = p @ debug_line class_name @ t \<and> after = rest)
           \<or> (\<exists>t q. rest = t @ q
                 \<and> suffix ''super();'' ((pre @ m) @ ''\<newline>'' @ import_line @ t)
                 \<and> before = pre @ m \<and> after = t @ debug_line class_name @ q))"
    unfolding u by (rule logger_around_import_line)
  show ?thesis
    by (rule exI[of _ pre], rule exI[of _ rest], intro conjI; fact c mt left a o l)
qed

theorem import_after_single_statement_witness:
  "findall_import ''// x\<newline>import Foo from \"foo\";\<newline>class A {}'' = [''import Foo from \"foo\";'']
   \<and> \<not> sublist ''import DebugLogger'' ''// x\<newline>import Foo from \"foo\";\<newline>class A {}''
   \<and> add_import ''// x\<newline>import Foo from \"foo\";\<newline>class A {}''
       = ''// x\<newline>import Foo from \"foo\";\<newline>import DebugLogger from './DebugLogger.js';\<newline>class A {}''
   \<and> occurrences ''import DebugLogger''
         (add_import ''// x\<newline>import Foo from \"foo\";\<newline>class A {}'') = 1
   \<and> update_content ''// x\<newline>import Foo from \"foo\";\<newline>class A {}'' ''A''
       = ''// x\<newline>import Foo from \"foo\";\<newline>import DebugLogger from './DebugLogger.js';\<newline>class A {}''"
proof -
  let ?D = "''// x\<newline>import Foo from \"foo\";\<newline>class A {}''"
  let ?A = "''// x\<newline>import Foo from \"foo\";\<newline>import DebugLogger from './DebugLogger.js';\<newline>class A {}''"
  have f: "findall_import ?D = [''import Foo from \"foo\";'']"
    by (simp add: match_import_at_def)
  have n: "\<not> sublist ''import DebugLogger'' ?D" by (simp add: sublist_code(3))
  have e: "add_import ?D = ?A"
    unfolding add_import_def f by (simp add: sublist_code(3) import_line_def)
  have d: "add_debug_instance ''A'' ?A = ?A"
    by (simp add: add_debug_instance_def sublist_code(3) match_constructor_at_def)
  have r: "replace_console ?A = ?A"
    by (simp add: replace_console_def replacements_def console_call_def debug_call_def
        re_sub.simps(2))
  have u: "update_content ?D ''A'' = ?A" unfolding update_content_def e d r ..
  from import_after_single_statement[OF f n] have
    "occurrences ''import DebugLogger'' (add_import ?D) = 1" by blast
  with f n e u show ?thesis by blast
qed

text \<open>
  Claim C3 as stated does not hold for the transform. In \<open>import constructor(){super();\<close>
  the only import statement is the whole document, and it is also a match of the
  constructor pattern: the logger line is put behind it, between the statement and
  the import line. In \<open>import x from console.log(1);\<close> the statement itself contains a
  call site and is rewritten. In both documents the result differs from the document
  followed by a line break and the import line.
\<close>

theorem import_after_single_statement_counterexample:
  "findall_import ''import constructor(){super();'' = [''import constructor(){super();'']
   \<and> \<not> sublist ''import DebugLogger'' ''import constructor(){super();''
   \<and> update_content ''import constructor(){super();'' ''A''
     = ''import constructor(){super();\<newline>    this.debug = DebugLogger.create('A');\<newline>import DebugLogger from './DebugLogger.js';''
   \<and> update_content ''import constructor(){super();'' ''A''
     \<noteq> ''import constructor(){super();'' @ ''\<newline>'' @ import_line
   \<and> findall_import ''import x from console.log(1);'' = [''import x from console.log(1);'']
   \<and> \<not> sublist ''import DebugLogger'' ''import x from console.log(1);''
   \<and> update_content ''import x from console.log(1);'' ''A''
     = ''import x from this.debug.log(1);\<newline>import DebugLogger from './DebugLogger.js';''
   \<and> update_content ''import x from console.log(1);'' ''A''
     \<noteq> ''import x from console.log(1);'' @ ''\<newline>'' @ import_line"
proof -
  let ?D = "''import constructor(){super();''"
  let ?A = "''import constructor(){super();\<newline>import DebugLogger from './DebugLogger.js';''"
  let ?B = "''import constructor(){super();\<newline>    this.debug = DebugLogger.create('A');\<newline>import DebugLogger from './DebugLogger.js';''"
  let ?E = "''import x from console.log(1);''"
  let ?EA = "''import x from console.log(1);\<newline>import DebugLogger from './DebugLogger.js';''"
  let ?EF = "''import x from this.debug.log(1);\<newline>import DebugLogger from './DebugLogger.js';''"
  have f: "findall_import ?D = [?D]" by (simp add: match_import_at_def)
  have n: "\<not> sublist ''import DebugLogger'' ?D" by (simp add: sublist_code(3))
  have a: "add_import ?D = ?A"
    unfolding add_import_def f by (simp add: sublist_code(3) import_line_def)
  have d: "add_debug_instance ''A'' ?A = ?B"
    by (simp add: add_debug_instance_def sublist_code(3) match_constructor_at_def is_space_def
        debug_line_def)
  have r: "replace_console ?B = ?B"
    by (simp add: replace_console_def replacements_def console_call_def debug_call_def
        re_sub.simps(2))
  have u: "update_content ?D ''A'' = ?B" unfolding update_content_def a d r ..
  have f2: "findall_import ?E = [?E]" by (simp add: match_import_at_def)
  have n2: "\<not> sublist ''import DebugLogger'' ?E" by (simp add: sublist_code(3))
  have a2: "add_import ?E = ?EA"
    unfolding add_import_def f2 by (simp add: sublist_code(3) import_line_def)
  have d2: "add_debug_instance ''A'' ?EA = ?EA"
    by (simp add: add_debug_instance_def sublist_code(3) match_constructor_at_def)
  have r2: "replace_console ?EA = ?EF"
    by (simp add: replace_console_def replacements_def console_call_def debug_call_def
        re_sub.simps(2))
  have u2: "update_content ?E ''A'' = ?EF" unfolding update_content_def a2 d2 r2 ..
  show ?thesis unfolding u u2 using f n f2 n2 by (simp add: import_line_def)
qed

subsection \<open>Running the transform twice\<close>

lemma set_re_sub: "set s \<subseteq> set (re_sub p r s) \<union> set p"
proof (induction p r s rule: re_sub.induct)
  case (1 pat repl)
  then show ?case by simp
next
  case (2 pat repl c s)
  show ?case
  proof (cases "pat \<noteq> [] \<and> prefix pat (c # s)")
    case True
    then obtain s' where cs: "c # s = pat @ s'" by (auto simp: prefix_def)
    then have dr: "drop (length pat) (c # s) = s'" by simp
    from True have "re_sub pat repl (c # s) = repl @ re_sub pat repl s'"
      unfolding dr[symmetric] by (simp add: re_sub_hit)
    moreover from "2.IH"(1)[OF True] have "set s' \<subseteq> set (re_sub pat repl s') \<union> set pat"
      unfolding dr .
    moreover have "set (c # s) = set pat \<union> set s'" unfolding cs by simp
    ultimately show ?thesis by auto
  next
    case False
    then have "re_sub pat repl (c # s) = c # re_sub pat repl s" by (rule re_sub_miss)
    with "2.IH"(2)[OF False] show ?thesis by auto
  qed
qed

lemma re_sub_all:
  "list_all Q (re_sub p r s) \<Longrightarrow> \<not> list_all Q r \<Longrightarrow> re_sub p r s = s"
proof (induction p r s rule: re_sub.induct)
  case (1 pat repl)
  then show ?case by simp
next
  case (2 pat repl c s)
  show ?case
  proof (cases "pat \<noteq> [] \<and> prefix pat (c # s)")
    case True
    then have "re_sub pat repl (c # s) = repl @ re_sub pat repl (drop (length pat) (c # s))"
      by (simp add: re_sub_hit)
    with "2.prems" show ?thesis by simp
  next
    case False
    then have m: "re_sub pat repl (c # s) = c # re_sub pat repl s" by (rule re_sub_miss)
    with "2.prems" have "list_all Q (re_sub pat repl s)" by simp
    from "2.IH"(2)[OF False this "2.prems"(2)] m show ?thesis by simp
  qed
qed

lemma after_brace_re_sub:
  assumes "after_brace (re_sub p r x)" "harmless p r"
  shows "after_brace x"
proof -
  from assms(1) obtain body rest where
    e: "re_sub p r x = body @ ''super();'' @ rest" and b: "CHR ''}'' \<notin> set body"
    unfolding after_brace_def by blast
  from assms(2) have h: "apart ''super();'' r" "tails_clear ''super();'' p" "CHR ''}'' \<notin> set p"
    by (simp_all add: harmless_def)
  from re_sub_split[OF h(1,2) _ e] obtain u0 v0 where
    x: "x = u0 @ ''super();'' @ v0" and u0: "re_sub p r u0 = body" by auto
  from set_re_sub[of u0 p r] u0 b h(3) have "CHR ''}'' \<notin> set u0" by auto
  with x show ?thesis unfolding after_brace_def by blast
qed

lemma after_params_re_sub:
  assumes "after_params (re_sub p r x)" "harmless p r"
  shows "after_params x"
proof -
  from assms(1) obtain ws r3 where
    e: "re_sub p r x = ws @ ''{'' @ r3" and w: "list_all is_space ws" and a: "after_brace r3"
    unfolding after_params_def by blast
  from assms(2) have h: "apart ''{'' r" "tails_clear ''{'' p" "\<not> list_all is_space r"
    by (simp_all add: harmless_def)
  from re_sub_split[OF h(1,2) _ e] obtain u0 v0 where
    x: "x = u0 @ ''{'' @ v0" and u0: "re_sub p r u0 = ws" and v0: "re_sub p r v0 = r3" by auto
  from w u0 have "list_all is_space (re_sub p r u0)" by simp
  from re_sub_all[OF this h(3)] u0 have "u0 = ws" by simp
  moreover from a v0 assms(2) have "after_brace v0" by (auto intro: after_brace_re_sub)
  ultimately show ?thesis using x w unfolding after_params_def by blast
qed

lemma after_header_re_sub:
  assumes "after_header (re_sub p r x)" "harmless p r"
  shows "after_header x"
proof -
  from assms(1) obtain params r2 where
    e: "re_sub p r x = params @ '')'' @ r2" and b: "CHR '')'' \<notin> set params"
    and a: "after_params r2"
    unfolding after_header_def by blast
  from assms(2) have h: "apart '')'' r" "tails_clear '')'' p" "CHR '')'' \<notin> set p"
    by (simp_all add: harmless_def)
  from re_sub_split[OF h(1,2) _ e] obtain u0 v0 where
    x: "x = u0 @ '')'' @ v0" and u0: "re_sub p r u0 = params" and v0: "re_sub p r v0 = r2" by auto
  from set_re_sub[of u0 p r] u0 b h(3) have "CHR '')'' \<notin> set u0" by auto
  moreover from a v0 assms(2) have "after_params v0" by (auto intro: after_params_re_sub)
  ultimately show ?thesis using x unfolding after_header_def by blast
qed

lemma has_constructor_re_sub:
  assumes "has_constructor (re_sub p r x)" "harmless p r"
  shows "has_constructor x"
proof -
  from assms(1) obtain pre r1 where
    e: "re_sub p r x = pre @ ''constructor('' @ r1" and a: "after_header r1"
    unfolding has_constructor_header by blast
  from assms(2) have h: "apart ''constructor('' r" "tails_clear ''constructor('' p"
    by (simp_all add: harmless_def)
  from re_sub_split[OF h(1,2) _ e] obtain u0 v0 where
    x: "x = u0 @ ''constructor('' @ v0" and v0: "re_sub p r v0 = r1" by auto
  from a v0 assms(2) have "after_header v0" by (auto intro: after_header_re_sub)
  with x show ?thesis unfolding has_constructor_header by blast
qed

lemma console_harmless: "harmless (console_call k) (debug_call k)"
  by (cases k; simp add: harmless_def apart_def parallel_def console_call_def debug_call_def
      is_space_def)

lemma has_constructor_replace_console:
  "has_constructor (replace_console x) \<Longrightarrow> has_constructor x"
  unfolding replace_console_steps step_def
  using has_constructor_re_sub console_harmless by blast

lemma import_marker_after_import: "sublist ''import DebugLogger'' (add_import content)"
proof -
  have "occurrences ''import DebugLogger'' (add_import content) \<noteq> 0"
    unfolding import_marker_count by simp
  then show ?thesis by (simp add: occurrences_zero)
qed

lemma import_marker_add_debug_instance:
  assumes "sublist ''import DebugLogger'' x"
  shows "sublist ''import DebugLogger'' (add_debug_instance class_name x)"
  using add_debug_instance_one_splice[of class_name x]
proof
  assume "add_debug_instance class_name x = x"
  with assms show ?thesis by simp
next
  assume "\<exists>pre rest. x = pre @ rest \<and> \<not> sublist ''this.debug = DebugLogger.create'' x
      \<and> add_debug_instance class_name x = pre @ debug_line class_name @ rest
      \<and> suffix ''super();'' pre"
  then obtain pre rest where x: "x = pre @ rest"
    and r: "add_debug_instance class_name x = pre @ debug_line class_name @ rest"
    and s: "suffix ''super();'' pre" by blast
  from s obtain p' where p': "pre = p' @ ''super()'' @ '';''" by (auto simp: suffix_def)
  from assms have "sublist ''import DebugLogger'' ((p' @ ''super()'') @ [CHR '';''] @ rest)"
    unfolding x p' by simp
  then have "sublist ''import DebugLogger''
      ((p' @ ''super()'') @ [CHR '';''] @ debug_line class_name @ rest)"
    by (rule sublist_insert) simp_all
  then show ?thesis unfolding r p' by simp
qed

lemma marker_clear:
  "tails_clear (tl (console_call k)) ''import DebugLogger''"
  "tails_clear ''import DebugLogger'' (console_call k)"
  "tails_clear (tl (console_call k)) ''this.debug = DebugLogger.create''"
  "tails_clear ''this.debug = DebugLogger.create'' (console_call k)"
  by (cases k; simp add: console_call_def parallel_def)+

lemma import_marker_replace_console:
  "sublist ''import DebugLogger'' x \<Longrightarrow> sublist ''import DebugLogger'' (replace_console x)"
  unfolding replace_console_steps step_def
  by (intro sublist_re_sub marker_clear) simp_all

lemma debug_marker_replace_console:
  "sublist ''this.debug = DebugLogger.create'' x \<Longrightarrow>
   sublist ''this.debug = DebugLogger.create'' (replace_console x)"
  unfolding replace_console_steps step_def
  by (intro sublist_re_sub marker_clear) simp_all

lemma debug_marker_after_logger:
  assumes "sublist ''this.debug = DebugLogger.create'' x \<or> search_constructor x \<noteq> None"
  shows "sublist ''this.debug = DebugLogger.create'' (add_debug_instance class_name x)"
proof (cases "sublist ''this.debug = DebugLogger.create'' x")
  case True
  then show ?thesis by (simp add: add_debug_instance_present)
next
  case False
  with assms obtain m where m: "search_constructor x = Some m" by auto
  from add_debug_instance_found[OF False m, of class_name] obtain pre rest where
    "add_debug_instance class_name x = pre @ m @ debug_line class_name @ rest" by blast
  then show ?thesis using debug_line_marker[of "pre @ m" class_name rest] by simp
qed

lemma replace_console_idem: "replace_console (replace_console x) = replace_console x"
  by (rule replace_console_free) (simp add: call_free_iff replace_console_removes)

text \<open>
  Claim C1. The transform of a file's content is idempotent: for every document and
  every component name, applying it to its own result gives that result again. After
  the first run the result contains \<open>import DebugLogger\<close>; it contains
  \<open>this.debug = DebugLogger.create\<close> when the line was added or was there before, and
  otherwise the constructor pattern still matches nowhere; and no console call opener
  is left.
\<close>

theorem update_content_idempotent:
  "update_content (update_content content class_name) class_name
   = update_content content class_name"
proof -
  let ?a = "add_import content"
  let ?b = "add_debug_instance class_name ?a"
  let ?F = "replace_console ?b"
  have "sublist ''import DebugLogger'' ?F"
    by (intro import_marker_replace_console import_marker_add_debug_instance
        import_marker_after_import)
  then have i: "add_import ?F = ?F" by (simp add: add_import_def)
  have d: "add_debug_instance class_name ?F = ?F"
  proof (cases "sublist ''this.debug = DebugLogger.create'' ?a \<or> search_constructor ?a \<noteq> None")
    case True
    then have "sublist ''this.debug = DebugLogger.create'' ?b"
      by (rule debug_marker_after_logger)
    then have "sublist ''this.debug = DebugLogger.create'' ?F"
      by (rule debug_marker_replace_console)
    then show ?thesis by (rule add_debug_instance_present)
  next
    case False
    then have n: "search_constructor ?a = None" by simp
    then have b: "?b = ?a" by (simp add: add_debug_instance_none)
    from n have "\<not> has_constructor ?a" by (simp add: has_constructor_iff)
    then have "\<not> has_constructor (replace_console ?a)"
      using has_constructor_replace_console by blast
    then have "search_constructor ?F = None" unfolding b by (simp add: has_constructor_iff)
    then show ?thesis by (rule add_debug_instance_none)
  qed
  show ?thesis unfolding update_content_def i d by (rule replace_console_idem)
qed

theorem update_content_idempotent_witness:
  "update_content ''import a;\<newline>class W { constructor() { super(); console.log(1); } }'' ''W''
    = ''import a;\<newline>import DebugLogger from './DebugLogger.js';\<newline>class W { constructor() { super();\<newline>    this.debug = DebugLogger.create('W'); this.debug.log(1); } }''
   \<and> update_content
       ''import a;\<newline>import DebugLogger from './DebugLogger.js';\<newline>class W { constructor() { super();\<newline>    this.debug = DebugLogger.create('W'); this.debug.log(1); } }''
       ''W''
    = ''import a;\<newline>import DebugLogger from './DebugLogger.js';\<newline>class W { constructor() { super();\<newline>    this.debug = DebugLogger.create('W'); this.debug.log(1); } }''"
proof -
  let ?D = "''import a;\<newline>class W { constructor() { super(); console.log(1); } }''"
  let ?A = "''import a;\<newline>import DebugLogger from './DebugLogger.js';\<newline>class W { constructor() { super(); console.log(1); } }''"
  let ?B = "''import a;\<newline>import DebugLogger from './DebugLogger.js';\<newline>class W { constructor() { super();\<newline>    this.debug = DebugLogger.create('W'); console.log(1); } }''"
  let ?F = "''import a;\<newline>import DebugLogger from './DebugLogger.js';\<newline>class W { constructor() { super();\<newline>    this.debug = DebugLogger.create('W'); this.debug.log(1); } }''"
  have f: "findall_import ?D = [''import a;'']" by (simp add: match_import_at_def)
  have a: "add_import ?D = ?A"
    unfolding add_import_def f by (simp add: sublist_code(3) import_line_def)
  have b: "add_debug_instance ''W'' ?A = ?B"
    by (simp add: add_debug_instance_def sublist_code(3) match_constructor_at_def is_space_def
        debug_line_def)
  have c: "replace_console ?B = ?F"
    by (simp add: replace_console_def replacements_def console_call_def debug_call_def
        re_sub.simps(2))
  have u: "update_content ?D ''W'' = ?F" unfolding update_content_def a b c ..
  from update_content_idempotent[of ?D "''W''"] show ?thesis unfolding u by simp
qed

subsection \<open>The batch loop\<close>

lemma update_all_Nil: "update_all [] w = w"
  by (simp add: update_all_def)

lemma update_all_Cons: "update_all ((p, c) # ys) w = update_all ys (update_file p c w)"
  by (simp add: update_all_def)

lemma update_all_append: "update_all (xs @ ys) w = update_all ys (update_all xs w)"
  by (simp add: update_all_def)

lemma update_file_printed:
  "update_file p c (w\<lparr>printed := pre\<rparr>) =
   (update_file p c (w\<lparr>printed := []\<rparr>))
     \<lparr>printed := pre @ printed (update_file p c (w\<lparr>printed := []\<rparr>))\<rparr>"
  by (simp add: update_file_def split: option.splits)

lemma update_all_printed:
  "update_all ys (w\<lparr>printed := pre\<rparr>) =
   (update_all ys (w\<lparr>printed := []\<rparr>))
     \<lparr>printed := pre @ printed (update_all ys (w\<lparr>printed := []\<rparr>))\<rparr>"
proof (induction ys arbitrary: w pre)
  case Nil
  then show ?case by (simp add: update_all_Nil)
next
  case (Cons e ys)
  obtain p c where e: "e = (p, c)" by (cases e)
  let ?w0 = "update_file p c (w\<lparr>printed := []\<rparr>)"
  have "update_all (e # ys) (w\<lparr>printed := pre\<rparr>)
      = update_all ys (?w0\<lparr>printed := pre @ printed ?w0\<rparr>)"
    using update_file_printed[where w=w and pre=pre and p=p and c=c] by (simp add: e update_all_Cons)
  also have "\<dots> = (update_all ys (?w0\<lparr>printed := []\<rparr>))
       \<lparr>printed := (pre @ printed ?w0) @ printed (update_all ys (?w0\<lparr>printed := []\<rparr>))\<rparr>"
    by (rule Cons.IH)
  finally have l: "update_all (e # ys) (w\<lparr>printed := pre\<rparr>) =
     (update_all ys (?w0\<lparr>printed := []\<rparr>))
       \<lparr>printed := pre @ printed ?w0 @ printed (update_all ys (?w0\<lparr>printed := []\<rparr>))\<rparr>"
    by simp
  have "update_all (e # ys) (w\<lparr>printed := []\<rparr>) = update_all ys (?w0\<lparr>printed := printed ?w0\<rparr>)"
    by (simp add: e update_all_Cons)
  also have "\<dots> = (update_all ys (?w0\<lparr>printed := []\<rparr>))
       \<lparr>printed := printed ?w0 @ printed (update_all ys (?w0\<lparr>printed := []\<rparr>))\<rparr>"
    by (rule Cons.IH)
  finally have r: "update_all (e # ys) (w\<lparr>printed := []\<rparr>) =
     (update_all ys (?w0\<lparr>printed := []\<rparr>))
       \<lparr>printed := printed ?w0 @ printed (update_all ys (?w0\<lparr>printed := []\<rparr>))\<rparr>" .
  show ?case unfolding l r by simp
qed

lemma update_file_dom: "dom (files (update_file p c w)) = dom (files w)"
  by (auto simp: update_file_def split: option.splits)

lemma update_all_dom: "dom (files (update_all xs w)) = dom (files w)"
proof (induction xs arbitrary: w)
  case Nil
  then show ?case by (simp add: update_all_Nil)
next
  case (Cons e xs)
  then show ?case by (cases e) (simp add: update_all_Cons update_file_dom)
qed

subsection \<open>A missing file is skipped\<close>

text \<open>
  Claim C9. When the path of a configuration entry is not an existing file, \<open>update_file\<close>
  prints the skip notice and does nothing else: no file is opened and no content changes.
  The batch handles the entries before and after it as it would without the entry: the
  files and the opened files at the end are the same, and the printed lines are the same
  with the one skip notice at the place of the entry.
\<close>

theorem missing_file_skipped:
  assumes "files w filepath = None"
  shows "update_file filepath class_name w = w\<lparr>printed := printed w @ [File_not_found filepath]\<rparr>
    \<and> files (update_all (before @ (filepath, class_name) # after) w)
         = files (update_all (before @ after) w)
    \<and> opened (update_all (before @ (filepath, class_name) # after) w)
         = opened (update_all (before @ after) w)
    \<and> (\<exists>rest. printed (update_all (before @ after) w) = printed (update_all before w) @ rest
           \<and> printed (update_all (before @ (filepath, class_name) # after) w)
             = printed (update_all before w) @ File_not_found filepath # rest)"
proof -
  have one: "update_file filepath class_name w = w\<lparr>printed := printed w @ [File_not_found filepath]\<rparr>"
    using assms by (simp add: update_file_def)
  let ?v = "update_all before w"
  have "filepath \<notin> dom (files ?v)" using assms by (simp add: update_all_dom domIff)
  then have none: "files ?v filepath = None" by (simp add: domIff)
  then have skip: "update_file filepath class_name ?v = ?v\<lparr>printed := printed ?v @ [File_not_found filepath]\<rparr>"
    by (simp add: update_file_def)
  let ?u = "update_all after (?v\<lparr>printed := []\<rparr>)"
  have with_entry: "update_all (before @ (filepath, class_name) # after) w
     = ?u\<lparr>printed := (printed ?v @ [File_not_found filepath]) @ printed ?u\<rparr>"
    using update_all_printed[where ys=after and w="?v" and pre="printed ?v @ [File_not_found filepath]"]
    by (simp add: update_all_append update_all_Cons skip)
  have without: "update_all (before @ after) w = ?u\<lparr>printed := printed ?v @ printed ?u\<rparr>"
    using update_all_printed[where ys=after and w="?v" and pre="printed ?v"]
    by (simp add: update_all_append)
  have two: "files (update_all (before @ (filepath, class_name) # after) w)
         = files (update_all (before @ after) w)"
    unfolding with_entry without by simp
  have three: "opened (update_all (before @ (filepath, class_name) # after) w)
         = opened (update_all (before @ after) w)"
    unfolding with_entry without by simp
  have four: "\<exists>rest. printed (update_all (before @ after) w) = printed (update_all before w) @ rest
           \<and> printed (update_all (before @ (filepath, class_name) # after) w)
             = printed (update_all before w) @ File_not_found filepath # rest"
    unfolding with_entry without by (intro exI[of _ "printed ?u"]) simp
  from one two three four show ?thesis by blast
qed

theorem missing_file_skipped_witness:
  "files sample_world ''src/TimerUtils.js'' = None
   \<and> update_file ''src/TimerUtils.js'' ''TimerUtils'' sample_world
       = sample_world\<lparr>printed := [File_not_found ''src/TimerUtils.js'']\<rparr>
   \<and> files (update_all [(''src/TimerUtils.js'', ''TimerUtils''), (''src/WebDHT.js'', ''WebDHT'')] sample_world)
       = files (update_all [(''src/WebDHT.js'', ''WebDHT'')] sample_world)"
proof -
  have h: "files sample_world ''src/TimerUtils.js'' = None"
    by (simp add: sample_world_def)
  from missing_file_skipped[OF h, of "''TimerUtils''" "[]" "[(''src/WebDHT.js'', ''WebDHT'')]"] h
  show ?thesis by (simp add: sample_world_def)
qed

end
